theory Spec2Isabelle
  imports Main "HOL-Library.Word"
begin

section \<open>The presence set (\<open>struct heatmap\<close> of board.c)\<close>

text \<open>
  A heatmap is a bool array with a maintained count of its set entries. Array indices,
  cell values and the board size are natural numbers (the source asserts them
  non-negative wherever they are used); the counters, which the source decrements and
  compares with \<open>size - 1\<close>, are integers. No counter exceeds \<open>size * size\<close>, so the
  source's \<open>int\<close> arithmetic never wraps on a board that can be allocated.
\<close>

record heatmap =
  len :: nat
  count :: int
  map_h :: "bool list"

definition heatmap_create :: "nat \<Rightarrow> heatmap" where
  "heatmap_create l = \<lparr>len = l, count = 0, map_h = replicate l False\<rparr>"

text \<open>\<open>heatmap_flip\<close> returns the value the entry had before the flip.\<close>

definition heatmap_flip :: "heatmap \<Rightarrow> nat \<Rightarrow> bool \<times> heatmap" where
  "heatmap_flip h val =
     (if map_h h ! (val - 1)
      then (True, h\<lparr>count := count h - 1, map_h := (map_h h)[val - 1 := False]\<rparr>)
      else (False, h\<lparr>count := count h + 1, map_h := (map_h h)[val - 1 := True]\<rparr>))"

definition heatmap_on :: "heatmap \<Rightarrow> nat \<Rightarrow> heatmap" where
  "heatmap_on h val =
     h\<lparr>count := (if \<not> map_h h ! (val - 1) then count h + 1 else count h),
       map_h := (map_h h)[val - 1 := True]\<rparr>"

definition heatmap_off :: "heatmap \<Rightarrow> nat \<Rightarrow> heatmap" where
  "heatmap_off h val =
     h\<lparr>count := (if map_h h ! (val - 1) then count h - 1 else count h),
       map_h := (map_h h)[val - 1 := False]\<rparr>"

definition heatmap_check :: "heatmap \<Rightarrow> nat \<Rightarrow> bool" where
  "heatmap_check h val = map_h h ! (val - 1)"

text \<open>The loop of \<open>heatmap_copy\<close> runs \<open>i\<close> from 1 to \<open>dest->len\<close>.\<close>

definition heatmap_copy_step :: "heatmap \<Rightarrow> nat \<Rightarrow> heatmap \<Rightarrow> heatmap" where
  "heatmap_copy_step src i dest =
     (let d = heatmap_off dest i
      in if heatmap_check src i then snd (heatmap_flip d i) else d)"

definition heatmap_copy :: "heatmap \<Rightarrow> heatmap \<Rightarrow> heatmap" where
  "heatmap_copy dest src = fold (heatmap_copy_step src) [1..<len dest + 1] dest"

section \<open>The board\<close>

text \<open>
  \<open>(int)sqrt((double)size)\<close>: the integer part of the square root, computed by
  counting down from \<open>size\<close>.
\<close>

primrec sqrt_down :: "nat \<Rightarrow> nat \<Rightarrow> nat" where
  "sqrt_down n 0 = 0"
| "sqrt_down n (Suc k) = (if Suc k * Suc k \<le> n then Suc k else sqrt_down n k)"

definition int_sqrt :: "nat \<Rightarrow> nat" where
  "int_sqrt n = sqrt_down n n"

definition box_finder :: "nat \<Rightarrow> nat \<Rightarrow> nat \<Rightarrow> nat" where
  "box_finder row col sz = (let root = int_sqrt sz in root * (row div root) + col div root)"

record board =
  size_b :: nat
  data :: "nat list list"
  appearances :: "int list"
  total_appearances :: int
  rows :: "heatmap list"
  cols :: "heatmap list"
  boxs :: "heatmap list"
  notes_b :: "heatmap list list"

text \<open>\<open>board_create\<close> asserts a positive, perfect-square size; \<open>None\<close> is the failed assertion.\<close>

definition board_create :: "nat \<Rightarrow> board option" where
  "board_create sz =
     (if 0 < sz \<and> int_sqrt sz * int_sqrt sz = sz
      then Some \<lparr>size_b = sz,
                 data = replicate sz (replicate sz 0),
                 appearances = replicate sz 0,
                 total_appearances = 0,
                 rows = replicate sz (heatmap_create sz),
                 cols = replicate sz (heatmap_create sz),
                 boxs = replicate sz (heatmap_create sz),
                 notes_b = replicate sz (replicate sz (heatmap_create sz))\<rparr>
      else None)"

definition board_get_size :: "board \<Rightarrow> nat" where
  "board_get_size b = size_b b"

text \<open>\<open>heatmap_off((b->notes)[i][j], v)\<close> as an update of the notes array.\<close>

definition notes_off :: "nat \<Rightarrow> nat \<Rightarrow> nat \<Rightarrow> heatmap list list \<Rightarrow> heatmap list list" where
  "notes_off i j v ns = ns[i := (ns ! i)[j := heatmap_off (ns ! i ! j) v]]"

text \<open>The first notes loop of \<open>board_insert\<close>, for the arguments \<open>row - 1\<close>, \<open>col - 1\<close>, \<open>val\<close>.\<close>

definition insert_line_step :: "nat \<Rightarrow> nat \<Rightarrow> nat \<Rightarrow> nat \<Rightarrow> heatmap list list \<Rightarrow> heatmap list list" where
  "insert_line_step r c val i ns =
     notes_off r i val (notes_off i c val (notes_off r c (i + 1) ns))"

text \<open>The second notes loop: every cell of the box whose top left corner is given.\<close>

definition insert_box_notes :: "nat \<Rightarrow> nat \<Rightarrow> nat \<Rightarrow> nat \<Rightarrow> heatmap list list \<Rightarrow> heatmap list list" where
  "insert_box_notes root box_row box_col val ns =
     fold (\<lambda>i. fold (\<lambda>j. notes_off i j val) [box_col..<box_col + root])
       [box_row..<box_row + root] ns"

text \<open>
  \<open>board_insert\<close>: \<open>None\<close> is a failed assertion on the arguments; otherwise the status
  (0 inserted, 1 already a number there, 2 contradiction) and the board afterwards.
\<close>

definition board_insert :: "board \<Rightarrow> nat \<Rightarrow> nat \<Rightarrow> nat \<Rightarrow> (int \<times> board) option" where
  "board_insert b row col val =
     (if \<not> (0 < row \<and> row \<le> board_get_size b \<and> 0 < col \<and> col \<le> board_get_size b \<and>
             0 < val \<and> val \<le> board_get_size b) then None
      else if data b ! (row - 1) ! (col - 1) \<noteq> 0 then Some (1, b)
      else if heatmap_check (rows b ! (row - 1)) val then Some (2, b)
      else if heatmap_check (cols b ! (col - 1)) val then Some (2, b)
      else
        let box = box_finder (row - 1) (col - 1) (board_get_size b) in
        if heatmap_check (boxs b ! box) val then Some (2, b)
        else
          let root = int_sqrt (board_get_size b);
              box_row = root * (box div root);
              box_col = root * (box mod root)
          in Some (0,
            b\<lparr>data := (data b)[row - 1 := (data b ! (row - 1))[col - 1 := val]],
              appearances := (appearances b)[val - 1 := appearances b ! (val - 1) + 1],
              rows := (rows b)[row - 1 := snd (heatmap_flip (rows b ! (row - 1)) val)],
              cols := (cols b)[col - 1 := snd (heatmap_flip (cols b ! (col - 1)) val)],
              boxs := (boxs b)[box := snd (heatmap_flip (boxs b ! box) val)],
              notes_b := insert_box_notes root box_row box_col val
                 (fold (insert_line_step (row - 1) (col - 1) val) [0..<board_get_size b]
                    (notes_b b)),
              total_appearances := total_appearances b + 1\<rparr>))"


section \<open>Deriving the notes\<close>

text \<open>\<open>heatmap_on((b->notes)[i][j], v)\<close> as an update of the notes array.\<close>

definition notes_on :: "nat \<Rightarrow> nat \<Rightarrow> nat \<Rightarrow> heatmap list list \<Rightarrow> heatmap list list" where
  "notes_on i j v ns = ns[i := (ns ! i)[j := heatmap_on (ns ! i ! j) v]]"

definition make_notes_step :: "board \<Rightarrow> nat \<Rightarrow> nat \<Rightarrow> nat \<Rightarrow> heatmap list list \<Rightarrow> heatmap list list" where
  "make_notes_step b i j val ns =
     (if data b ! i ! j = 0 \<and> \<not> heatmap_check (rows b ! i) val \<and>
         \<not> heatmap_check (cols b ! j) val \<and>
         \<not> heatmap_check (boxs b ! box_finder i j (board_get_size b)) val
      then notes_on i j val ns else ns)"

definition board_make_notes :: "board \<Rightarrow> board" where
  "board_make_notes b =
     (let sz = board_get_size b
      in b\<lparr>notes_b :=
            fold (\<lambda>i. fold (\<lambda>j. fold (make_notes_step b i j) [1..<sz + 1]) [0..<sz])
              [0..<sz] (notes_b b)\<rparr>)"

section \<open>Copying a board\<close>

text \<open>The first loop of \<open>board_copy\<close> empties row \<open>i\<close> of the destination's tables.\<close>

definition board_copy_clear :: "nat \<Rightarrow> heatmap \<Rightarrow> nat \<Rightarrow> board \<Rightarrow> board" where
  "board_copy_clear sz empty_h i dest =
     dest\<lparr>rows := (rows dest)[i := heatmap_copy (rows dest ! i) empty_h],
          cols := (cols dest)[i := heatmap_copy (cols dest ! i) empty_h],
          boxs := (boxs dest)[i := heatmap_copy (boxs dest ! i) empty_h],
          appearances := (appearances dest)[i := 0],
          data := (data dest)[i := fold (\<lambda>j r. r[j := 0]) [0..<sz] (data dest ! i)]\<rparr>"

text \<open>
  The second loop visits the cells in row-major order; a filled cell of the source is
  inserted into the destination (the status is dropped), an empty one has its notes copied.
\<close>

fun board_copy_fill :: "board \<Rightarrow> (nat \<times> nat) list \<Rightarrow> board \<Rightarrow> board option" where
  "board_copy_fill src [] dest = Some dest"
| "board_copy_fill src ((i, j) # cells) dest =
     (if data src ! i ! j \<noteq> 0
      then (case board_insert dest (i + 1) (j + 1) (data src ! i ! j) of
              None \<Rightarrow> None
            | Some (st, d) \<Rightarrow> board_copy_fill src cells d)
      else board_copy_fill src cells
             (dest\<lparr>notes_b := (notes_b dest)[i := (notes_b dest ! i)
                [j := heatmap_copy (notes_b dest ! i ! j) (notes_b src ! i ! j)]]\<rparr>))"

definition board_copy :: "board \<Rightarrow> board \<Rightarrow> board option" where
  "board_copy dest src =
     (if board_get_size dest \<noteq> board_get_size src then None
      else
        let sz = board_get_size src;
            empty_h = heatmap_create sz;
            d = fold (board_copy_clear sz empty_h) [0..<sz] (dest\<lparr>total_appearances := 0\<rparr>)
        in board_copy_fill src (List.product [0..<sz] [0..<sz]) d)"


section \<open>Propagation\<close>

text \<open>
  A stretch of \<open>board_solve\<close> either goes on with the board as it left it, returns
  from \<open>board_solve\<close> with a status, or stops at a failed assertion.
\<close>

datatype flow = Failed | Returned int board | Running board

text \<open>A loop without \<open>break\<close> whose body may return.\<close>

fun flow_fold :: "('a \<Rightarrow> board \<Rightarrow> flow) \<Rightarrow> 'a list \<Rightarrow> board \<Rightarrow> flow" where
  "flow_fold f [] b = Running b"
| "flow_fold f (x # xs) b =
     (case f x b of Running b' \<Rightarrow> flow_fold f xs b' | other \<Rightarrow> other)"

text \<open>
  Every call of \<open>board_insert\<close> inside \<open>board_solve\<close> is a statement: the status it
  returns is dropped.
\<close>

definition insert_discard :: "board \<Rightarrow> nat \<Rightarrow> nat \<Rightarrow> nat \<Rightarrow> flow" where
  "insert_discard b row col val =
     (case board_insert b row col val of None \<Rightarrow> Failed | Some (st, b') \<Rightarrow> Running b')"

text \<open>
  The local variables \<open>row\<close>, \<open>col\<close>, \<open>val\<close> start at \<open>-1\<close>, which is \<open>None\<close> here;
  the test \<open>row >= 0\<close> is \<open>row \<noteq> None\<close>.

  Numbers with \<open>size - 1\<close> entries: the scan over \<open>j\<close> stops at the insertion.
\<close>

fun value_scan :: "board \<Rightarrow> nat \<Rightarrow> nat list \<Rightarrow> nat option \<Rightarrow> nat option \<Rightarrow> flow" where
  "value_scan b val [] row col = Running b"
| "value_scan b val (j # js) row col =
     (let row' = (if \<not> heatmap_check (rows b ! j) val then Some j else row);
          col' = (if \<not> heatmap_check (cols b ! j) val then Some j else col)
      in if row' \<noteq> None \<and> col' \<noteq> None
         then insert_discard b (the row' + 1) (the col' + 1) val
         else value_scan b val js row' col')"

definition rule_value :: "nat \<Rightarrow> nat \<Rightarrow> board \<Rightarrow> flow" where
  "rule_value sz i b =
     (if appearances b ! i = int sz - 1 then value_scan b (i + 1) [0..<sz] None None
      else Running b)"

text \<open>Rows with \<open>size - 1\<close> entries.\<close>

fun row_scan :: "board \<Rightarrow> nat \<Rightarrow> nat list \<Rightarrow> nat option \<Rightarrow> nat option \<Rightarrow> flow" where
  "row_scan b i [] col val = Running b"
| "row_scan b i (j # js) col val =
     (let val' = (if \<not> heatmap_check (rows b ! i) (j + 1) then Some (j + 1) else val);
          col' = (if data b ! i ! j = 0 then Some j else col)
      in if col' \<noteq> None \<and> val' \<noteq> None
         then insert_discard b (i + 1) (the col' + 1) (the val')
         else row_scan b i js col' val')"

definition rule_row :: "nat \<Rightarrow> nat \<Rightarrow> board \<Rightarrow> flow" where
  "rule_row sz i b =
     (if count (rows b ! i) = int sz - 1 then row_scan b i [0..<sz] None None
      else Running b)"

text \<open>Columns with \<open>size - 1\<close> entries.\<close>

fun col_scan :: "board \<Rightarrow> nat \<Rightarrow> nat list \<Rightarrow> nat option \<Rightarrow> nat option \<Rightarrow> flow" where
  "col_scan b i [] row val = Running b"
| "col_scan b i (j # js) row val =
     (let val' = (if \<not> heatmap_check (cols b ! i) (j + 1) then Some (j + 1) else val);
          row' = (if data b ! j ! i = 0 then Some j else row)
      in if row' \<noteq> None \<and> val' \<noteq> None
         then insert_discard b (the row' + 1) (i + 1) (the val')
         else col_scan b i js row' val')"

definition rule_col :: "nat \<Rightarrow> nat \<Rightarrow> board \<Rightarrow> flow" where
  "rule_col sz i b =
     (if count (cols b ! i) = int sz - 1 then col_scan b i [0..<sz] None None
      else Running b)"

text \<open>
  Boxes with \<open>size - 1\<close> entries: \<open>val\<close> is the last value missing from the box; the
  \<open>break\<close> after the insertion leaves the loop over the columns only. With \<open>val\<close>
  still \<open>-1\<close> the insertion fails its assertion.
\<close>

definition box_missing :: "board \<Rightarrow> nat \<Rightarrow> nat \<Rightarrow> nat option" where
  "box_missing b i sz =
     fold (\<lambda>j val. if \<not> heatmap_check (boxs b ! i) (j + 1) then Some (j + 1) else val)
       [0..<sz] None"

fun box_fill_row :: "nat option \<Rightarrow> nat \<Rightarrow> nat list \<Rightarrow> board \<Rightarrow> flow" where
  "box_fill_row val i [] b = Running b"
| "box_fill_row val i (j # js) b =
     (if data b ! i ! j = 0
      then (case val of None \<Rightarrow> Failed | Some v \<Rightarrow> insert_discard b (i + 1) (j + 1) v)
      else box_fill_row val i js b)"

definition rule_box :: "nat \<Rightarrow> nat \<Rightarrow> board \<Rightarrow> flow" where
  "rule_box sz i b =
     (if count (boxs b ! i) = int sz - 1
      then
        let root = int_sqrt (board_get_size b);
            box_row = root * (i div root);
            box_col = root * (i mod root);
            val = box_missing b i sz
        in flow_fold (\<lambda>i. box_fill_row val i [box_col..<box_col + root])
             [box_row..<box_row + root] b
      else Running b)"

text \<open>
  Squares with only one possible number, and squares with none. \<open>h\<close> points into the
  board, so the inner loop reads the notes as the insertions leave them.
\<close>

definition single_fill :: "nat \<Rightarrow> nat \<Rightarrow> nat \<Rightarrow> board \<Rightarrow> flow" where
  "single_fill i j val b =
     (if heatmap_check (notes_b b ! i ! j) val then insert_discard b (i + 1) (j + 1) val
      else Running b)"

definition single_cell :: "nat \<Rightarrow> nat \<Rightarrow> nat \<Rightarrow> board \<Rightarrow> flow" where
  "single_cell sz i j b =
     (if count (notes_b b ! i ! j) = 1 then flow_fold (single_fill i j) [1..<sz + 1] b
      else if count (notes_b b ! i ! j) = 0 \<and> data b ! i ! j = 0 then Returned 1 b
      else Running b)"

text \<open>
  Numbers that exist only once in the notes of a row, a column or a box. The count
  stops at the second note in a row or column, and after the row of the box that holds
  the second.
\<close>

fun row_note_count :: "board \<Rightarrow> nat \<Rightarrow> nat \<Rightarrow> nat list \<Rightarrow> int \<Rightarrow> nat option \<Rightarrow> int \<times> nat option" where
  "row_note_count b i val [] row_count col = (row_count, col)"
| "row_note_count b i val (j # js) row_count col =
     (if heatmap_check (notes_b b ! i ! j) val
      then (if row_count + 1 > 1 then (row_count + 1, Some j)
            else row_note_count b i val js (row_count + 1) (Some j))
      else row_note_count b i val js row_count col)"

definition hidden_row :: "nat \<Rightarrow> nat \<Rightarrow> nat \<Rightarrow> board \<Rightarrow> flow" where
  "hidden_row sz val i b =
     (if \<not> heatmap_check (rows b ! i) val
      then (case row_note_count b i val [0..<sz] 0 None of
              (row_count, col) \<Rightarrow>
                if row_count = 1
                then (case col of None \<Rightarrow> Failed
                      | Some c \<Rightarrow> insert_discard b (i + 1) (c + 1) val)
                else Running b)
      else Running b)"

fun col_note_count :: "board \<Rightarrow> nat \<Rightarrow> nat \<Rightarrow> nat list \<Rightarrow> int \<Rightarrow> nat option \<Rightarrow> int \<times> nat option" where
  "col_note_count b i val [] col_count row = (col_count, row)"
| "col_note_count b i val (j # js) col_count row =
     (if heatmap_check (notes_b b ! j ! i) val
      then (if col_count + 1 > 1 then (col_count + 1, Some j)
            else col_note_count b i val js (col_count + 1) (Some j))
      else col_note_count b i val js col_count row)"

definition hidden_col :: "nat \<Rightarrow> nat \<Rightarrow> nat \<Rightarrow> board \<Rightarrow> flow" where
  "hidden_col sz val i b =
     (if \<not> heatmap_check (cols b ! i) val
      then (case col_note_count b i val [0..<sz] 0 None of
              (col_count, row) \<Rightarrow>
                if col_count = 1
                then (case row of None \<Rightarrow> Failed
                      | Some r \<Rightarrow> insert_discard b (r + 1) (i + 1) val)
                else Running b)
      else Running b)"

definition box_note_row :: "board \<Rightarrow> nat \<Rightarrow> nat \<Rightarrow> nat list \<Rightarrow> int \<times> (nat \<times> nat) option
    \<Rightarrow> int \<times> (nat \<times> nat) option" where
  "box_note_row b val j ks acc =
     fold (\<lambda>k (box_count, cell).
             if heatmap_check (notes_b b ! j ! k) val then (box_count + 1, Some (j, k))
             else (box_count, cell)) ks acc"

fun box_note_count :: "board \<Rightarrow> nat \<Rightarrow> nat list \<Rightarrow> nat list \<Rightarrow> int \<times> (nat \<times> nat) option
    \<Rightarrow> int \<times> (nat \<times> nat) option" where
  "box_note_count b val [] ks acc = acc"
| "box_note_count b val (j # js) ks acc =
     (let acc' = box_note_row b val j ks acc
      in if fst acc' > 1 then acc' else box_note_count b val js ks acc')"

definition hidden_box :: "nat \<Rightarrow> nat \<Rightarrow> nat \<Rightarrow> board \<Rightarrow> flow" where
  "hidden_box sz val i b =
     (if \<not> heatmap_check (boxs b ! i) val
      then
        let root = int_sqrt sz;
            box_row = root * (i div root);
            box_col = root * (i mod root)
        in (case box_note_count b val [box_row..<box_row + root] [box_col..<box_col + root]
                   (0, None) of
              (box_count, cell) \<Rightarrow>
                if box_count = 1
                then (case cell of None \<Rightarrow> Failed
                      | Some (r, c) \<Rightarrow> insert_discard b (r + 1) (c + 1) val)
                else Running b)
      else Running b)"

definition hidden_unit :: "nat \<Rightarrow> nat \<times> nat \<Rightarrow> board \<Rightarrow> flow" where
  "hidden_unit sz = (\<lambda>(val, i) b.
     flow_fold (\<lambda>rule. rule sz val i) [hidden_row, hidden_col, hidden_box] b)"

text \<open>The body of the loop over \<open>i\<close> inside one round of the propagation loop.\<close>

definition solve_unit :: "nat \<Rightarrow> nat \<Rightarrow> board \<Rightarrow> flow" where
  "solve_unit sz i b =
     flow_fold (\<lambda>stage. stage) 
       [rule_value sz i, rule_row sz i, rule_col sz i, rule_box sz i,
        flow_fold (single_cell sz i) [0..<sz],
        flow_fold (hidden_unit sz) (List.product [1..<sz + 1] [0..<sz])] b"

definition solve_round :: "nat \<Rightarrow> board \<Rightarrow> flow" where
  "solve_round sz b = flow_fold (solve_unit sz) [0..<sz] b"

text \<open>
  The propagation loop runs a round while the board is not full and the last round
  inserted something; \<open>old_total_appearances\<close> starts one below the total, so the
  first test only asks for a board that is not full.
\<close>

function solve_rounds :: "nat \<Rightarrow> board \<Rightarrow> flow" where
  "solve_rounds sz b =
     (if total_appearances b < int (sz * sz)
      then (case solve_round sz b of
              Running b' \<Rightarrow>
                if total_appearances b' > total_appearances b then solve_rounds sz b'
                else Running b'
            | other \<Rightarrow> other)
      else Running b)"
  by pat_completeness auto
termination
  by (relation "measure (\<lambda>(sz, b). nat (int (sz * sz) - total_appearances b))") auto

declare solve_rounds.simps [simp del]


section \<open>Guessing\<close>

text \<open>
  The scan for a guess on the scratch board: \<open>num_possible\<close> from 1 to \<open>size - 1\<close>,
  the cells in row-major order. It ends at the first insertion (\<open>updated\<close>), returns 1
  from \<open>board_solve\<close> at an empty cell without notes, or runs to its end with
  \<open>row = col = val = -1\<close> (\<open>None\<close>).
\<close>

datatype scan = Scan_return | Scan_failed | Scan_done board "(nat \<times> nat \<times> nat) option"

fun first_note :: "heatmap \<Rightarrow> nat list \<Rightarrow> nat option" where
  "first_note h [] = None"
| "first_note h (k # ks) = (if heatmap_check h k then Some k else first_note h ks)"

fun guess_scan :: "nat \<Rightarrow> (nat \<times> nat \<times> nat) list \<Rightarrow> board \<Rightarrow> scan" where
  "guess_scan sz [] new_b = Scan_done new_b None"
| "guess_scan sz ((num_possible, i, j) # rest) new_b =
     (if count (notes_b new_b ! i ! j) = int num_possible
      then (case first_note (notes_b new_b ! i ! j) [1..<sz + 1] of
              Some k \<Rightarrow>
                (case board_insert new_b (i + 1) (j + 1) k of
                   None \<Rightarrow> Scan_failed
                 | Some (st, nb) \<Rightarrow> Scan_done nb (Some (i, j, k)))
            | None \<Rightarrow> guess_scan sz rest new_b)
      else if data new_b ! i ! j = 0 \<and> count (notes_b new_b ! i ! j) = 0 then Scan_return
      else guess_scan sz rest new_b)"

definition guess_order :: "nat \<Rightarrow> (nat \<times> nat \<times> nat) list" where
  "guess_order sz = List.product [1..<sz] (List.product [0..<sz] [0..<sz])"

section \<open>\<open>board_solve\<close>\<close>

text \<open>
  The result of a call: the status and the board as the call leaves it, or a failed
  assertion, or no result within the fuel. Every recursive call and every round of the
  guessing loop takes one unit of fuel. The last component of \<open>Ret\<close> is not a value of
  the program: it counts how many times \<open>board_make_notes\<close> ran during the call, and
  nothing reads it.

  The argument \<open>n\<close> is a C \<open>int\<close>; \<open>n + 1\<close> wraps here.

  In the guessing loop \<open>new_b\<close> is the scratch board, kept from one round to the
  next. When the scan has chosen no cell and the recursive call returns 1, the source
  calls \<open>heatmap_off\<close> with \<open>val = -1\<close>, whose assertion fails. A status of the
  recursive call other than 0 and 1 would end the loop and the function without a
  return value; \<open>board_solve\<close> returns no such status.
\<close>

datatype outcome = Out_of_fuel | Abort | Ret int board nat

fun add_runs :: "nat \<Rightarrow> outcome \<Rightarrow> outcome" where
  "add_runs k (Ret r b m) = Ret r b (k + m)"
| "add_runs k other = other"

fun board_solve :: "nat \<Rightarrow> board \<Rightarrow> 32 word \<Rightarrow> outcome"
  and guess_loop :: "nat \<Rightarrow> nat \<Rightarrow> board \<Rightarrow> board \<Rightarrow> 32 word \<Rightarrow> outcome" where
  "board_solve 0 b n = Out_of_fuel"
| "board_solve (Suc fuel) b n =
     (let sz = board_get_size b
      in case solve_rounds sz (board_make_notes b) of
           Failed \<Rightarrow> Abort
         | Returned r b' \<Rightarrow> Ret r b' 1
         | Running b' \<Rightarrow>
             if total_appearances b' \<ge> int (sz * sz) then Ret 0 b' 1
             else (case board_create sz of
                     None \<Rightarrow> Abort
                   | Some new_b \<Rightarrow> add_runs 1 (guess_loop fuel sz b' new_b n)))"
| "guess_loop 0 sz b new_b n = Out_of_fuel"
| "guess_loop (Suc fuel) sz b new_b n =
     (case board_copy new_b b of
        None \<Rightarrow> Abort
      | Some nb \<Rightarrow>
          (case guess_scan sz (guess_order sz) nb of
             Scan_return \<Rightarrow> Ret 1 b 0
           | Scan_failed \<Rightarrow> Abort
           | Scan_done nb' guess \<Rightarrow>
               (case board_solve fuel nb' (n + 1) of
                  Out_of_fuel \<Rightarrow> Out_of_fuel
                | Abort \<Rightarrow> Abort
                | Ret guess_ret nb'' k \<Rightarrow>
                    if guess_ret = 0
                    then (case board_copy b nb'' of
                            None \<Rightarrow> Abort
                          | Some b' \<Rightarrow> Ret 0 b' k)
                    else if guess_ret = 1
                    then (case guess of
                            None \<Rightarrow> Abort
                          | Some (row, col, val) \<Rightarrow>
                              add_runs k
                                (guess_loop fuel sz
                                   (b\<lparr>notes_b := notes_off row col val (notes_b b)\<rparr>) nb'' n))
                    else Abort)))"

section \<open>Heatmaps with a right count\<close>

text \<open>
  The static heatmap functions assert \<open>0 < val <= h->len\<close> (and equal lengths for the
  copy). Every heatmap of a board has length \<open>size\<close> and every caller passes a value
  between 1 and \<open>size\<close>, so the model states the assertions as hypotheses of the lemmas
  about these functions and does not branch on them.
\<close>


definition trues :: "bool list \<Rightarrow> nat" where
  "trues xs = length (filter (\<lambda>x. x) xs)"

definition heatmap_wf :: "nat \<Rightarrow> heatmap \<Rightarrow> bool" where
  "heatmap_wf n h \<longleftrightarrow> len h = n \<and> length (map_h h) = n \<and> count h = int (trues (map_h h))"

lemma trues_append [simp]: "trues (xs @ ys) = trues xs + trues ys"
  by (simp add: trues_def)

lemma trues_update:
  assumes "i < length xs"
  shows "int (trues (xs[i := x])) = int (trues xs) - (if xs ! i then 1 else 0) + (if x then 1 else 0)"
proof -
  have a: "xs[i := x] = take i xs @ x # drop (Suc i) xs"
    using assms by (rule upd_conv_take_nth_drop)
  have b: "trues xs = trues (take i xs @ xs ! i # drop (Suc i) xs)"
    using assms by (simp add: id_take_nth_drop[symmetric])
  have c: "\<And>y ys. trues (y # ys) = (if y then 1 else 0) + trues ys"
    by (simp add: trues_def)
  show ?thesis unfolding a b by (simp add: c)
qed

lemma trues_replicate_False [simp]: "trues (replicate n False) = 0"
  by (simp add: trues_def)

lemma heatmap_wf_create [simp]: "heatmap_wf n (heatmap_create n)"
  by (simp add: heatmap_wf_def heatmap_create_def)

lemma heatmap_check_create [simp]: "0 < v \<Longrightarrow> v \<le> n \<Longrightarrow> \<not> heatmap_check (heatmap_create n) v"
  by (simp add: heatmap_check_def heatmap_create_def)

lemma heatmap_wf_off:
  "heatmap_wf n h \<Longrightarrow> 0 < v \<Longrightarrow> v \<le> n \<Longrightarrow> heatmap_wf n (heatmap_off h v)"
  by (simp add: heatmap_wf_def heatmap_off_def trues_update)

lemma heatmap_wf_on:
  "heatmap_wf n h \<Longrightarrow> 0 < v \<Longrightarrow> v \<le> n \<Longrightarrow> heatmap_wf n (heatmap_on h v)"
  by (simp add: heatmap_wf_def heatmap_on_def trues_update)

lemma heatmap_wf_flip:
  "heatmap_wf n h \<Longrightarrow> 0 < v \<Longrightarrow> v \<le> n \<Longrightarrow> heatmap_wf n (snd (heatmap_flip h v))"
  by (simp add: heatmap_wf_def heatmap_flip_def trues_update)

lemma heatmap_check_off:
  "heatmap_wf n h \<Longrightarrow> 0 < v \<Longrightarrow> v \<le> n \<Longrightarrow> 0 < u \<Longrightarrow> u \<le> n \<Longrightarrow>
   heatmap_check (heatmap_off h v) u \<longleftrightarrow> heatmap_check h u \<and> u \<noteq> v"
  by (auto simp: heatmap_wf_def heatmap_off_def heatmap_check_def nth_list_update)

lemma heatmap_check_on:
  "heatmap_wf n h \<Longrightarrow> 0 < v \<Longrightarrow> v \<le> n \<Longrightarrow> 0 < u \<Longrightarrow> u \<le> n \<Longrightarrow>
   heatmap_check (heatmap_on h v) u \<longleftrightarrow> heatmap_check h u \<or> u = v"
  by (auto simp: heatmap_wf_def heatmap_on_def heatmap_check_def nth_list_update)

lemma heatmap_check_flip:
  "heatmap_wf n h \<Longrightarrow> 0 < v \<Longrightarrow> v \<le> n \<Longrightarrow> 0 < u \<Longrightarrow> u \<le> n \<Longrightarrow>
   heatmap_check (snd (heatmap_flip h v)) u \<longleftrightarrow> (if u = v then \<not> heatmap_check h v else heatmap_check h u)"
  by (auto simp: heatmap_wf_def heatmap_flip_def heatmap_check_def nth_list_update)

lemma heatmap_count_off:
  "heatmap_wf n h \<Longrightarrow> 0 < v \<Longrightarrow> v \<le> n \<Longrightarrow>
   count (heatmap_off h v) = count h - (if heatmap_check h v then 1 else 0)"
  by (simp add: heatmap_off_def heatmap_check_def)

lemma heatmap_count_flip:
  "count (snd (heatmap_flip h v)) = count h + (if heatmap_check h v then - 1 else 1)"
  by (simp add: heatmap_flip_def heatmap_check_def)

lemma heatmap_eqI:
  assumes "heatmap_wf n h" "heatmap_wf n h'"
    and "\<And>v. 0 < v \<Longrightarrow> v \<le> n \<Longrightarrow> heatmap_check h v = heatmap_check h' v"
  shows "h = h'"
proof -
  have m: "map_h h = map_h h'"
  proof (rule nth_equalityI)
    show "length (map_h h) = length (map_h h')" using assms(1,2) by (simp add: heatmap_wf_def)
  next
    fix i assume "i < length (map_h h)"
    then have "0 < Suc i" "Suc i \<le> n" using assms(1) by (simp_all add: heatmap_wf_def)
    from assms(3)[OF this] show "map_h h ! i = map_h h' ! i" by (simp add: heatmap_check_def)
  qed
  with assms(1,2) show ?thesis by (simp add: heatmap_wf_def)
qed

lemma heatmap_off_idem:
  "heatmap_wf n h \<Longrightarrow> 0 < v \<Longrightarrow> v \<le> n \<Longrightarrow> \<not> heatmap_check h v \<Longrightarrow> heatmap_off h v = h"
  by (rule heatmap_eqI[where n = n]) (auto simp: heatmap_wf_off heatmap_check_off[where n = n])

lemma heatmap_count_zero_iff:
  "heatmap_wf n h \<Longrightarrow> count h = 0 \<longleftrightarrow> (\<forall>v. 0 < v \<and> v \<le> n \<longrightarrow> \<not> heatmap_check h v)"
proof -
  assume wf: "heatmap_wf n h"
  have "trues (map_h h) = 0 \<longleftrightarrow> (\<forall>i < length (map_h h). \<not> map_h h ! i)"
    by (auto simp: trues_def filter_empty_conv in_set_conv_nth)
  moreover have "(\<forall>i < n. \<not> map_h h ! i) \<longleftrightarrow> (\<forall>v. 0 < v \<and> v \<le> n \<longrightarrow> \<not> map_h h ! (v - 1))"
  proof safe
    fix v assume "\<forall>i<n. \<not> map_h h ! i" "0 < v" "v \<le> n" "map_h h ! (v - 1)"
    then show False by (auto dest!: spec[where x = "v - 1"])
  next
    fix i assume "\<forall>v. 0 < v \<and> v \<le> n \<longrightarrow> \<not> map_h h ! (v - 1)" "i < n" "map_h h ! i"
    then show False by (auto dest!: spec[where x = "Suc i"])
  qed
  ultimately show ?thesis using wf by (simp add: heatmap_wf_def heatmap_check_def)
qed

text \<open>heatmap_copy\<close>

lemma heatmap_copy_step_wf:
  "heatmap_wf n d \<Longrightarrow> 0 < i \<Longrightarrow> i \<le> n \<Longrightarrow> heatmap_wf n (heatmap_copy_step s i d)"
  by (simp add: heatmap_copy_step_def Let_def heatmap_wf_off heatmap_wf_flip)

lemma heatmap_copy_step_check:
  "heatmap_wf n d \<Longrightarrow> heatmap_wf n s \<Longrightarrow> 0 < i \<Longrightarrow> i \<le> n \<Longrightarrow> 0 < u \<Longrightarrow> u \<le> n \<Longrightarrow>
   heatmap_check (heatmap_copy_step s i d) u = (if u = i then heatmap_check s i else heatmap_check d u)"
  by (simp add: heatmap_copy_step_def Let_def heatmap_wf_off heatmap_check_flip[where n = n]
      heatmap_check_off[where n = n])

lemma heatmap_copy_fold:
  "heatmap_wf n d \<Longrightarrow> heatmap_wf n s \<Longrightarrow> \<forall>i\<in>set xs. 0 < i \<and> i \<le> n \<Longrightarrow>
   heatmap_wf n (fold (heatmap_copy_step s) xs d) \<and>
   (\<forall>u. 0 < u \<and> u \<le> n \<longrightarrow>
      heatmap_check (fold (heatmap_copy_step s) xs d) u =
        (if u \<in> set xs then heatmap_check s u else heatmap_check d u))"
proof (induction xs arbitrary: d)
  case Nil
  then show ?case by simp
next
  case (Cons a xs)
  have wf': "heatmap_wf n (heatmap_copy_step s a d)"
    using Cons.prems by (simp add: heatmap_copy_step_wf)
  from Cons.IH[OF wf' Cons.prems(2)] Cons.prems
  show ?case by (auto simp: heatmap_copy_step_check)
qed

lemma heatmap_copy_eq:
  assumes "heatmap_wf n dest" "heatmap_wf n src"
  shows "heatmap_copy dest src = src"
proof (rule heatmap_eqI[where n = n])
  have r: "\<forall>i\<in>set [1..<n + 1]. 0 < i \<and> i \<le> n" by auto
  have l: "len dest = n" using assms(1) by (simp add: heatmap_wf_def)
  note f = heatmap_copy_fold[OF assms r]
  show "heatmap_wf n (heatmap_copy dest src)" using f by (simp add: heatmap_copy_def l)
  show "heatmap_wf n src" by fact
  fix v assume "0 < v" "v \<le> n"
  then show "heatmap_check (heatmap_copy dest src) v = heatmap_check src v"
    using f by (simp add: heatmap_copy_def l)
qed

section \<open>Notes arrays; the notes loops of \<open>board_insert\<close>; boxes\<close>


definition notes_wf :: "nat \<Rightarrow> heatmap list list \<Rightarrow> bool" where
  "notes_wf n ns \<longleftrightarrow>
     length ns = n \<and> (\<forall>r<n. length (ns ! r) = n) \<and> (\<forall>r<n. \<forall>c<n. heatmap_wf n (ns ! r ! c))"

definition retracted :: "nat \<Rightarrow> (nat \<times> nat \<times> nat) set \<Rightarrow> heatmap list list \<Rightarrow> heatmap list list \<Rightarrow> bool" where
  "retracted n S ns ns' \<longleftrightarrow>
     notes_wf n ns' \<and>
     (\<forall>r<n. \<forall>c<n. \<forall>u. 0 < u \<and> u \<le> n \<longrightarrow>
        heatmap_check (ns' ! r ! c) u = (heatmap_check (ns ! r ! c) u \<and> (r, c, u) \<notin> S))"

lemma retracted_refl: "notes_wf n ns \<Longrightarrow> retracted n {} ns ns"
  by (simp add: retracted_def)

lemma notes_off_wf:
  assumes "notes_wf n ns" "i < n" "j < n" "0 < v" "v \<le> n"
  shows "notes_wf n (notes_off i j v ns)"
  using assms unfolding notes_wf_def notes_off_def
  by (auto simp: nth_list_update heatmap_wf_off)

lemma notes_off_check:
  assumes "notes_wf n ns" "i < n" "j < n" "0 < v" "v \<le> n" "r < n" "c < n" "0 < u" "u \<le> n"
  shows "heatmap_check (notes_off i j v ns ! r ! c) u =
         (heatmap_check (ns ! r ! c) u \<and> \<not> (r = i \<and> c = j \<and> u = v))"
  using assms unfolding notes_wf_def notes_off_def
  by (auto simp: nth_list_update heatmap_check_off[where n = n])

lemma retracted_off:
  assumes "retracted n S ns ns1" "i < n" "j < n" "0 < v" "v \<le> n"
  shows "retracted n (insert (i, j, v) S) ns (notes_off i j v ns1)"
  using assms unfolding retracted_def
  by (auto simp: notes_off_wf notes_off_check[where n = n])

lemma retracted_mono_set:
  "retracted n S ns ns1 \<Longrightarrow> S = S' \<Longrightarrow> retracted n S' ns ns1"
  by simp

lemma fold_retracted:
  assumes "\<And>x S ns1. x \<in> set xs \<Longrightarrow> retracted n S ns ns1 \<Longrightarrow> retracted n (S \<union> T x) ns (f x ns1)"
    and "retracted n S ns ns1"
  shows "retracted n (S \<union> (\<Union>x\<in>set xs. T x)) ns (fold f xs ns1)"
  using assms
proof (induction xs arbitrary: S ns1)
  case Nil
  then show ?case by simp
next
  case (Cons a xs)
  have 1: "retracted n (S \<union> T a) ns (f a ns1)"
    using Cons.prems by simp
  have "retracted n ((S \<union> T a) \<union> (\<Union>x\<in>set xs. T x)) ns (fold f xs (f a ns1))"
    by (rule Cons.IH) (use Cons.prems 1 in auto)
  then show ?case by (simp add: Un_assoc)
qed

lemma insert_line_step_retracted:
  assumes "retracted n S ns ns1" "r < n" "c < n" "0 < v" "v \<le> n" "i < n"
  shows "retracted n (S \<union> {(r, c, i + 1), (i, c, v), (r, i, v)}) ns (insert_line_step r c v i ns1)"
proof -
  have "retracted n (insert (r, i, v) (insert (i, c, v) (insert (r, c, i + 1) S))) ns
          (insert_line_step r c v i ns1)"
    unfolding insert_line_step_def
    by (intro retracted_off) (use assms in auto)
  then show ?thesis by (rule retracted_mono_set) auto
qed

lemma insert_line_retracted:
  assumes "notes_wf n ns" "r < n" "c < n" "0 < v" "v \<le> n"
  shows "retracted n ({} \<union> (\<Union>i\<in>set [0..<n]. {(r, c, i + 1), (i, c, v), (r, i, v)})) ns
           (fold (insert_line_step r c v) [0..<n] ns)"
proof (rule fold_retracted)
  show "retracted n {} ns ns" using assms(1) by (rule retracted_refl)
next
  fix i S ns1
  assume "i \<in> set [0..<n]" "retracted n S ns ns1"
  then show "retracted n (S \<union> {(r, c, i + 1), (i, c, v), (r, i, v)}) ns (insert_line_step r c v i ns1)"
    using assms by (intro insert_line_step_retracted) auto
qed

lemma insert_box_retracted:
  assumes "retracted n S ns ns1" "br + k \<le> n" "bc + k \<le> n" "0 < v" "v \<le> n"
  shows "retracted n (S \<union> (\<Union>i\<in>set [br..<br + k]. (\<Union>j\<in>set [bc..<bc + k]. {(i, j, v)}))) ns
           (insert_box_notes k br bc v ns1)"
  unfolding insert_box_notes_def
proof (rule fold_retracted[OF _ assms(1)])
  fix i S' ns2
  assume i: "i \<in> set [br..<br + k]" and r: "retracted n S' ns ns2"
  show "retracted n (S' \<union> (\<Union>j\<in>set [bc..<bc + k]. {(i, j, v)})) ns
          (fold (\<lambda>j. notes_off i j v) [bc..<bc + k] ns2)"
  proof (rule fold_retracted[OF _ r])
    fix j S'' ns3
    assume "j \<in> set [bc..<bc + k]" "retracted n S'' ns ns3"
    then have "retracted n (insert (i, j, v) S'') ns (notes_off i j v ns3)"
      using i assms by (intro retracted_off) auto
    then show "retracted n (S'' \<union> {(i, j, v)}) ns (notes_off i j v ns3)" by simp
  qed
qed

text \<open>box arithmetic\<close>

lemma div_less_root: "c < R * R \<Longrightarrow> c div R < (R::nat)"
  by (simp add: less_mult_imp_div_less)

lemma box_div [simp]: "b < R \<Longrightarrow> (R * a + b) div R = (a::nat)"
  by simp

lemma box_mod [simp]: "b < R \<Longrightarrow> (R * a + b) mod R = (b::nat)"
  by simp

lemma in_block_iff:
  "0 < R \<Longrightarrow> R * a \<le> x \<and> x < R * a + R \<longleftrightarrow> x div R = (a::nat)"
proof
  assume "0 < R" "R * a \<le> x \<and> x < R * a + R"
  then obtain d where "x = R * a + d" "d < R"
    by (metis add.commute le_Suc_ex nat_add_left_cancel_less)
  then show "x div R = a" by simp
next
  assume R: "0 < R" and "x div R = a"
  then have "x = R * a + x mod R" by (metis mult_div_mod_eq)
  moreover have "x mod R < R" using R by simp
  ultimately show "R * a \<le> x \<and> x < R * a + R" by linarith
qed

lemma box_eq_iff:
  assumes "c < R * R" "c' < R * R"
  shows "R * (r div R) + c div R = R * (r' div R) + c' div R \<longleftrightarrow>
         r div R = r' div R \<and> c div R = c' div (R::nat)"
proof
  assume e: "R * (r div R) + c div R = R * (r' div R) + c' div R"
  have 1: "c div R < R" "c' div R < R" using assms by (simp_all add: div_less_root)
  have "(R * (r div R) + c div R) div R = r div R" using 1 by simp
  moreover have "(R * (r' div R) + c' div R) div R = r' div R" using 1 by simp
  moreover have "(R * (r div R) + c div R) mod R = c div R" using 1 by simp
  moreover have "(R * (r' div R) + c' div R) mod R = c' div R" using 1 by simp
  ultimately show "r div R = r' div R \<and> c div R = c' div R" using e by metis
qed simp

lemma box_less:
  assumes "r < R * R" "c < R * R"
  shows "R * (r div R) + c div R < R * (R::nat)"
proof -
  have 1: "r div R < R" "c div R < R" using assms by (simp_all add: div_less_root)
  have "R * (r div R) + c div R < R * (r div R) + R" using 1 by simp
  also have "\<dots> = R * Suc (r div R)" by simp
  also have "\<dots> \<le> R * R" using 1(1) by (intro mult_le_mono2) simp
  finally show ?thesis .
qed

section \<open>Reading a board\<close>


definition cell :: "board \<Rightarrow> nat \<Rightarrow> nat \<Rightarrow> nat" where
  "cell b r c = data b ! r ! c"

definition has_note :: "board \<Rightarrow> nat \<Rightarrow> nat \<Rightarrow> nat \<Rightarrow> bool" where
  "has_note b r c v = heatmap_check (notes_b b ! r ! c) v"

definition used_row :: "board \<Rightarrow> nat \<Rightarrow> nat \<Rightarrow> bool" where
  "used_row b r v = heatmap_check (rows b ! r) v"

definition used_col :: "board \<Rightarrow> nat \<Rightarrow> nat \<Rightarrow> bool" where
  "used_col b c v = heatmap_check (cols b ! c) v"

definition used_box :: "board \<Rightarrow> nat \<Rightarrow> nat \<Rightarrow> bool" where
  "used_box b k v = heatmap_check (boxs b ! k) v"

definition box_of :: "board \<Rightarrow> nat \<Rightarrow> nat \<Rightarrow> nat" where
  "box_of b r c = box_finder r c (size_b b)"

definition same_unit :: "board \<Rightarrow> nat \<Rightarrow> nat \<Rightarrow> nat \<Rightarrow> nat \<Rightarrow> bool" where
  "same_unit b r c r' c' \<longleftrightarrow> r = r' \<or> c = c' \<or> box_of b r c = box_of b r' c'"

definition board_wf :: "board \<Rightarrow> bool" where
  "board_wf b \<longleftrightarrow>
     0 < size_b b \<and> int_sqrt (size_b b) * int_sqrt (size_b b) = size_b b \<and>
     length (data b) = size_b b \<and> (\<forall>r < size_b b. length (data b ! r) = size_b b) \<and>
     length (appearances b) = size_b b \<and>
     length (rows b) = size_b b \<and> length (cols b) = size_b b \<and> length (boxs b) = size_b b \<and>
     (\<forall>i < size_b b. heatmap_wf (size_b b) (rows b ! i)) \<and>
     (\<forall>i < size_b b. heatmap_wf (size_b b) (cols b ! i)) \<and>
     (\<forall>i < size_b b. heatmap_wf (size_b b) (boxs b ! i)) \<and>
     notes_wf (size_b b) (notes_b b)"

lemma box_of_less:
  assumes "board_wf b" "r < size_b b" "c < size_b b"
  shows "box_of b r c < size_b b"
proof -
  let ?R = "int_sqrt (size_b b)"
  have n: "?R * ?R = size_b b" using assms(1) by (simp add: board_wf_def)
  have "?R * (r div ?R) + c div ?R < ?R * ?R"
    by (rule box_less) (use assms n in simp_all)
  then show ?thesis by (simp add: box_of_def box_finder_def Let_def n)
qed

lemma box_of_eq_iff:
  assumes "board_wf b" "c < size_b b" "c' < size_b b"
  shows "box_of b r c = box_of b r' c' \<longleftrightarrow>
         r div int_sqrt (size_b b) = r' div int_sqrt (size_b b) \<and>
         c div int_sqrt (size_b b) = c' div int_sqrt (size_b b)"
proof -
  let ?R = "int_sqrt (size_b b)"
  have n: "?R * ?R = size_b b" using assms(1) by (simp add: board_wf_def)
  show ?thesis unfolding box_of_def box_finder_def Let_def
    by (rule box_eq_iff) (use assms n in simp_all)
qed

lemma root_pos: "board_wf b \<Longrightarrow> 0 < int_sqrt (size_b b)"
  by (auto simp: board_wf_def intro: Nat.gr0I)

text \<open>The board after a successful insertion, field by field.\<close>

definition inserted :: "board \<Rightarrow> nat \<Rightarrow> nat \<Rightarrow> nat \<Rightarrow> board \<Rightarrow> bool" where
  "inserted b r c val b' \<longleftrightarrow>
     size_b b' = size_b b \<and> board_wf b' \<and>
     total_appearances b' = total_appearances b + 1 \<and>
     (\<forall>v. 0 < v \<and> v \<le> size_b b \<longrightarrow>
        appearances b' ! (v - 1) = appearances b ! (v - 1) + (if v = val then 1 else 0)) \<and>
     (\<forall>r' < size_b b. \<forall>c' < size_b b.
        cell b' r' c' = (if r' = r \<and> c' = c then val else cell b r' c')) \<and>
     (\<forall>i < size_b b. \<forall>v. 0 < v \<and> v \<le> size_b b \<longrightarrow>
        used_row b' i v = (used_row b i v \<or> i = r \<and> v = val) \<and>
        used_col b' i v = (used_col b i v \<or> i = c \<and> v = val) \<and>
        used_box b' i v = (used_box b i v \<or> i = box_of b r c \<and> v = val)) \<and>
     (\<forall>r' < size_b b. \<forall>c' < size_b b. \<forall>v. 0 < v \<and> v \<le> size_b b \<longrightarrow>
        has_note b' r' c' v =
          (has_note b r' c' v \<and> \<not> (r' = r \<and> c' = c) \<and> \<not> (v = val \<and> same_unit b r c r' c')))"

lemma board_insert_cases:
  assumes "board_insert b row col val = Some (st, b')"
  shows "0 < row \<and> row \<le> size_b b \<and> 0 < col \<and> col \<le> size_b b \<and> 0 < val \<and> val \<le> size_b b \<and>
         (st = 1 \<and> b' = b \<and> cell b (row - 1) (col - 1) \<noteq> 0 \<or>
          st = 2 \<and> b' = b \<and> cell b (row - 1) (col - 1) = 0 \<and>
            (used_row b (row - 1) val \<or> used_col b (col - 1) val \<or>
             used_box b (box_of b (row - 1) (col - 1)) val) \<or>
          st = 0 \<and> cell b (row - 1) (col - 1) = 0 \<and>
            \<not> used_row b (row - 1) val \<and> \<not> used_col b (col - 1) val \<and>
            \<not> used_box b (box_of b (row - 1) (col - 1)) val)"
  using assms
  by (auto simp: board_insert_def board_get_size_def cell_def used_row_def used_col_def
      used_box_def box_of_def Let_def split: if_splits)

section \<open>The board after a successful insertion\<close>


lemma board_insert_inserted:
  assumes wf: "board_wf b" and ins: "board_insert b row col val = Some (0, b')"
  shows "inserted b (row - 1) (col - 1) val b'"
proof -
  define n where "n = size_b b"
  define r where "r = row - 1"
  define c where "c = col - 1"
  define R where "R = int_sqrt n"
  define k where "k = box_of b r c"
  from board_insert_cases[OF ins]
  have rng: "0 < row" "row \<le> n" "0 < col" "col \<le> n" "0 < val" "val \<le> n"
    and free: "cell b r c = 0" "\<not> used_row b r val" "\<not> used_col b c val" "\<not> used_box b k val"
    by (simp_all add: n_def r_def c_def k_def)
  have rc: "r < n" "c < n" using rng by (simp_all add: r_def c_def)
  have kn: "k < n" unfolding k_def n_def by (rule box_of_less) (use wf rc in \<open>simp_all add: n_def\<close>)
  have RR: "R * R = n" using wf by (simp add: board_wf_def R_def n_def)
  have Rpos: "0 < R" using root_pos[OF wf] by (simp add: R_def n_def)
  have k_eq: "k = R * (r div R) + c div R"
    by (simp add: k_def box_of_def box_finder_def Let_def R_def n_def)
  have cR: "c div R < R" "r div R < R" using rc RR by (simp_all add: div_less_root)
  have kdiv: "k div R = r div R" and kmod: "k mod R = c div R"
    using cR by (simp_all add: k_eq)
  define ns1 where "ns1 = fold (insert_line_step r c val) [0..<n] (notes_b b)"
  define ns2 where "ns2 = insert_box_notes R (R * (r div R)) (R * (c div R)) val ns1"
  have "board_insert b row col val = Some (0, b\<lparr>data := (data b)[r := (data b ! r)[c := val]],
              appearances := (appearances b)[val - 1 := appearances b ! (val - 1) + 1],
              rows := (rows b)[r := snd (heatmap_flip (rows b ! r) val)],
              cols := (cols b)[c := snd (heatmap_flip (cols b ! c) val)],
              boxs := (boxs b)[k := snd (heatmap_flip (boxs b ! k) val)],
              notes_b := ns2,
              total_appearances := total_appearances b + 1\<rparr>)"
    using rng free kdiv kmod
    unfolding r_def c_def k_def n_def R_def ns1_def ns2_def
    by (simp add: board_insert_def board_get_size_def Let_def cell_def used_row_def
        used_col_def used_box_def box_of_def)
  with ins have b': "b' = b\<lparr>data := (data b)[r := (data b ! r)[c := val]],
              appearances := (appearances b)[val - 1 := appearances b ! (val - 1) + 1],
              rows := (rows b)[r := snd (heatmap_flip (rows b ! r) val)],
              cols := (cols b)[c := snd (heatmap_flip (cols b ! c) val)],
              boxs := (boxs b)[k := snd (heatmap_flip (boxs b ! k) val)],
              notes_b := ns2,
              total_appearances := total_appearances b + 1\<rparr>"
    by simp
  have nwf: "notes_wf n (notes_b b)" using wf by (simp add: board_wf_def n_def)
  define S1 where "S1 = {} \<union> (\<Union>i\<in>set [0..<n]. {(r, c, i + 1), (i, c, val), (r, i, val)})"
  define S2 where "S2 = (\<Union>i\<in>set [R * (r div R)..<R * (r div R) + R].
                          (\<Union>j\<in>set [R * (c div R)..<R * (c div R) + R]. {(i, j, val)}))"
  have ret1: "retracted n S1 (notes_b b) ns1"
    unfolding S1_def ns1_def by (rule insert_line_retracted) (use nwf rc rng in simp_all)
  have blk: "R * (r div R) + R \<le> n" "R * (c div R) + R \<le> n"
  proof -
    have "R * Suc (r div R) \<le> R * R" "R * Suc (c div R) \<le> R * R"
      using cR by (simp_all only: Suc_le_eq mult_le_mono2)
    then show "R * (r div R) + R \<le> n" "R * (c div R) + R \<le> n" using RR by simp_all
  qed
  have ret2: "retracted n (S1 \<union> S2) (notes_b b) ns2"
    unfolding S2_def ns2_def by (rule insert_box_retracted) (use ret1 blk rng in simp_all)
  have S_iff: "(r', c', v) \<in> S1 \<union> S2 \<longleftrightarrow>
       (r' = r \<and> c' = c) \<or> (v = val \<and> same_unit b r c r' c')"
    if "r' < n" "c' < n" "0 < v" "v \<le> n" for r' c' v
  proof -
    have 1: "(r', c', v) \<in> S1 \<longleftrightarrow> (r' = r \<and> c' = c) \<or> (v = val \<and> (r' = r \<or> c' = c))"
    proof -
      have "\<exists>i<n. v = i + 1" using that by (intro exI[where x = "v - 1"]) simp
      then show ?thesis using that unfolding S1_def by auto
    qed
    have 2: "(r', c', v) \<in> S2 \<longleftrightarrow> v = val \<and> box_of b r c = box_of b r' c'"
    proof -
      have "(r', c', v) \<in> S2 \<longleftrightarrow>
          v = val \<and> (R * (r div R) \<le> r' \<and> r' < R * (r div R) + R) \<and>
          (R * (c div R) \<le> c' \<and> c' < R * (c div R) + R)"
        unfolding S2_def by auto
      also have "\<dots> \<longleftrightarrow> v = val \<and> r' div R = r div R \<and> c' div R = c div R"
        by (simp only: in_block_iff[OF Rpos])
      also have "\<dots> \<longleftrightarrow> v = val \<and> box_of b r c = box_of b r' c'"
        using box_of_eq_iff[OF wf, of c c' r r'] rc that
        by (auto simp: n_def R_def)
      finally show ?thesis .
    qed
    show ?thesis unfolding Un_iff 1 2 same_unit_def by blast
  qed
  have sz: "size_b b' = size_b b" by (simp add: b')
  have hw: "heatmap_wf n (rows b ! i)" "heatmap_wf n (cols b ! i)" "heatmap_wf n (boxs b ! i)"
    if "i < n" for i using wf that by (simp_all add: board_wf_def n_def)
  have len: "length (rows b) = n" "length (cols b) = n" "length (boxs b) = n"
    "length (data b) = n" "length (appearances b) = n"
    using wf by (simp_all add: board_wf_def n_def)
  have lenr: "length (data b ! i) = n" if "i < n" for i
    using wf that by (simp add: board_wf_def n_def)
  have wf': "board_wf b'"
    unfolding board_wf_def sz n_def[symmetric]
  proof (intro conjI allI impI)
    show "0 < n" "int_sqrt n * int_sqrt n = n" using wf by (simp_all add: board_wf_def n_def)
    show "length (data b') = n" "length (appearances b') = n" "length (rows b') = n"
      "length (cols b') = n" "length (boxs b') = n" by (simp_all add: b' len)
    show "notes_wf n (notes_b b')" using ret2 by (simp add: b' retracted_def)
  next
    fix i assume "i < n"
    then show "length (data b' ! i) = n" using rc by (simp add: b' nth_list_update len lenr)
  next
    fix i assume "i < n"
    then show "heatmap_wf n (rows b' ! i)"
      using rc rng by (simp add: b' nth_list_update len hw heatmap_wf_flip)
  next
    fix i assume "i < n"
    then show "heatmap_wf n (cols b' ! i)"
      using rc rng by (simp add: b' nth_list_update len hw heatmap_wf_flip)
  next
    fix i assume "i < n"
    then show "heatmap_wf n (boxs b' ! i)"
      using kn rng by (simp add: b' nth_list_update len hw heatmap_wf_flip)
  qed
  show ?thesis
    unfolding inserted_def r_def[symmetric] c_def[symmetric] n_def[symmetric] k_def[symmetric]
  proof (intro conjI allI impI)
    show "size_b b' = n" by (simp add: sz n_def)
    show "board_wf b'" by (rule wf')
    show "total_appearances b' = total_appearances b + 1" by (simp add: b')
  next
    fix v assume "0 < v \<and> v \<le> n"
    then show "appearances b' ! (v - 1) = appearances b ! (v - 1) + (if v = val then 1 else 0)"
      using rng by (auto simp: b' nth_list_update len)
  next
    fix r' c' assume "r' < n" "c' < n"
    then show "cell b' r' c' = (if r' = r \<and> c' = c then val else cell b r' c')"
      using rc by (simp add: cell_def b' nth_list_update len lenr)
  next
    fix i v assume i: "i < n" and v: "0 < v \<and> v \<le> n"
    show "used_row b' i v = (used_row b i v \<or> i = r \<and> v = val)"
      using i v rc rng free
      by (auto simp: used_row_def b' nth_list_update len heatmap_check_flip[where n = n] hw)
    show "used_col b' i v = (used_col b i v \<or> i = c \<and> v = val)"
      using i v rc rng free
      by (auto simp: used_col_def b' nth_list_update len heatmap_check_flip[where n = n] hw)
    show "used_box b' i v = (used_box b i v \<or> i = k \<and> v = val)"
      using i v kn rng free
      by (auto simp: used_box_def b' nth_list_update len heatmap_check_flip[where n = n] hw)
  next
    fix r' c' v assume a: "r' < n" "c' < n" "0 < v \<and> v \<le> n"
    then have "heatmap_check (ns2 ! r' ! c') v =
        (heatmap_check (notes_b b ! r' ! c') v \<and> (r', c', v) \<notin> S1 \<union> S2)"
      using ret2 unfolding retracted_def by blast
    then show "has_note b' r' c' v =
        (has_note b r' c' v \<and> \<not> (r' = r \<and> c' = c) \<and> \<not> (v = val \<and> same_unit b r c r' c'))"
      using S_iff[of r' c' v] a by (auto simp: has_note_def b')
  qed
qed

section \<open>The invariants of the data model\<close>


definition cells_of :: "nat \<Rightarrow> (nat \<times> nat) list" where
  "cells_of n = List.product [0..<n] [0..<n]"

definition count_cells :: "board \<Rightarrow> (nat \<Rightarrow> bool) \<Rightarrow> nat" where
  "count_cells b P = length (filter (\<lambda>(r, c). P (cell b r c)) (cells_of (size_b b)))"

definition values_ok :: "board \<Rightarrow> bool" where
  "values_ok b \<longleftrightarrow> (\<forall>r < size_b b. \<forall>c < size_b b. cell b r c \<le> size_b b)"

definition used_ok :: "board \<Rightarrow> bool" where
  "used_ok b \<longleftrightarrow>
     (\<forall>i < size_b b. \<forall>v. 0 < v \<and> v \<le> size_b b \<longrightarrow>
        used_row b i v = (\<exists>c < size_b b. cell b i c = v) \<and>
        used_col b i v = (\<exists>r < size_b b. cell b r i = v) \<and>
        used_box b i v = (\<exists>r < size_b b. \<exists>c < size_b b. box_of b r c = i \<and> cell b r c = v))"

definition units_distinct :: "board \<Rightarrow> bool" where
  "units_distinct b \<longleftrightarrow>
     (\<forall>r < size_b b. \<forall>c < size_b b. \<forall>r' < size_b b. \<forall>c' < size_b b.
        cell b r c \<noteq> 0 \<and> cell b r c = cell b r' c' \<and> same_unit b r c r' c' \<longrightarrow>
        r = r' \<and> c = c')"

definition counts_ok :: "board \<Rightarrow> bool" where
  "counts_ok b \<longleftrightarrow>
     (\<forall>v. 0 < v \<and> v \<le> size_b b \<longrightarrow>
        appearances b ! (v - 1) = int (count_cells b (\<lambda>x. x = v))) \<and>
     total_appearances b = int (count_cells b (\<lambda>x. x \<noteq> 0))"

definition notes_sound :: "board \<Rightarrow> bool" where
  "notes_sound b \<longleftrightarrow>
     (\<forall>r < size_b b. \<forall>c < size_b b. \<forall>v. 0 < v \<and> v \<le> size_b b \<and> has_note b r c v \<longrightarrow>
        cell b r c = 0 \<and> \<not> used_row b r v \<and> \<not> used_col b c v \<and>
        \<not> used_box b (box_of b r c) v)"

definition board_core :: "board \<Rightarrow> bool" where
  "board_core b \<longleftrightarrow> board_wf b \<and> values_ok b \<and> used_ok b \<and> units_distinct b \<and> counts_ok b"

definition board_inv :: "board \<Rightarrow> bool" where
  "board_inv b \<longleftrightarrow> board_core b \<and> notes_sound b"

lemma filter_one_more:
  assumes "distinct xs" "x0 \<in> set xs" "\<not> Q x0" "\<And>x. x \<in> set xs \<Longrightarrow> x \<noteq> x0 \<Longrightarrow> Q' x = Q x"
  shows "length (filter Q' xs) = length (filter Q xs) + (if Q' x0 then 1 else 0)"
  using assms
proof (induction xs)
  case Nil
  then show ?case by simp
next
  case (Cons a xs)
  show ?case
  proof (cases "a = x0")
    case True
    then have "x0 \<notin> set xs" using Cons.prems(1) by simp
    then have "filter Q' xs = filter Q xs"
      using Cons.prems(4) by (intro filter_cong) auto
    then show ?thesis using True Cons.prems(3) by simp
  next
    case False
    then have "x0 \<in> set xs" using Cons.prems(2) by simp
    with Cons have "length (filter Q' xs) = length (filter Q xs) + (if Q' x0 then 1 else 0)"
      by simp
    moreover have "Q' a = Q a" using Cons.prems(4) False by simp
    ultimately show ?thesis by simp
  qed
qed

lemma cells_of_distinct [simp]: "distinct (cells_of n)"
  by (simp add: cells_of_def distinct_product)

lemma cells_of_set [simp]: "(r, c) \<in> set (cells_of n) \<longleftrightarrow> r < n \<and> c < n"
  by (simp add: cells_of_def)

lemma inserted_size: "inserted b r c val b' \<Longrightarrow> size_b b' = size_b b"
  and inserted_wf: "inserted b r c val b' \<Longrightarrow> board_wf b'"
  and inserted_total: "inserted b r c val b' \<Longrightarrow> total_appearances b' = total_appearances b + 1"
  by (simp_all add: inserted_def)

lemma inserted_appearances:
  "inserted b r c val b' \<Longrightarrow> 0 < v \<Longrightarrow> v \<le> size_b b \<Longrightarrow>
   appearances b' ! (v - 1) = appearances b ! (v - 1) + (if v = val then 1 else 0)"
  by (simp add: inserted_def)

lemma inserted_cell:
  "inserted b r c val b' \<Longrightarrow> r' < size_b b \<Longrightarrow> c' < size_b b \<Longrightarrow>
   cell b' r' c' = (if r' = r \<and> c' = c then val else cell b r' c')"
  by (simp add: inserted_def)

lemma inserted_used:
  assumes "inserted b r c val b'" "i < size_b b" "0 < v" "v \<le> size_b b"
  shows "used_row b' i v = (used_row b i v \<or> i = r \<and> v = val)"
    and "used_col b' i v = (used_col b i v \<or> i = c \<and> v = val)"
    and "used_box b' i v = (used_box b i v \<or> i = box_of b r c \<and> v = val)"
  using assms by (simp_all add: inserted_def)

lemma inserted_note:
  "inserted b r c val b' \<Longrightarrow> r' < size_b b \<Longrightarrow> c' < size_b b \<Longrightarrow> 0 < v \<Longrightarrow> v \<le> size_b b \<Longrightarrow>
   has_note b' r' c' v =
     (has_note b r' c' v \<and> \<not> (r' = r \<and> c' = c) \<and> \<not> (v = val \<and> same_unit b r c r' c'))"
  by (simp add: inserted_def)

lemma count_cells_inserted:
  assumes "inserted b r c val b'" "r < size_b b" "c < size_b b" "cell b r c = 0" "\<not> P 0"
  shows "count_cells b' P = count_cells b P + (if P val then 1 else 0)"
proof -
  have sz: "size_b b' = size_b b" using assms(1) by (simp add: inserted_def)
  have cellb': "cell b' r' c' = (if r' = r \<and> c' = c then val else cell b r' c')"
    if "r' < size_b b" "c' < size_b b" for r' c'
    using assms(1) that by (simp add: inserted_def)
  have "length (filter (\<lambda>(r, c). P (cell b' r c)) (cells_of (size_b b))) =
        length (filter (\<lambda>(r, c). P (cell b r c)) (cells_of (size_b b))) +
        (if (\<lambda>(r, c). P (cell b' r c)) (r, c) then 1 else 0)"
  proof (rule filter_one_more)
    show "distinct (cells_of (size_b b))" by simp
    show "(r, c) \<in> set (cells_of (size_b b))" using assms by simp
    show "\<not> (case (r, c) of (r, c) \<Rightarrow> P (cell b r c))" using assms by simp
    fix x assume "x \<in> set (cells_of (size_b b))" "x \<noteq> (r, c)"
    moreover obtain r' c' where "x = (r', c')" by (cases x)
    ultimately have x: "x = (r', c')" "r' < size_b b" "c' < size_b b" "\<not> (r' = r \<and> c' = c)"
      by simp_all
    then have "cell b' r' c' = cell b r' c'" using cellb'[of r' c'] by auto
    then show "(case x of (r, c) \<Rightarrow> P (cell b' r c)) = (case x of (r, c) \<Rightarrow> P (cell b r c))"
      using x(1) by simp
  qed
  then show ?thesis using assms(2,3) by (simp add: count_cells_def sz cellb')
qed

lemma units_distinctD:
  "units_distinct b \<Longrightarrow> r < size_b b \<Longrightarrow> c < size_b b \<Longrightarrow> r' < size_b b \<Longrightarrow> c' < size_b b \<Longrightarrow>
   cell b r c \<noteq> 0 \<Longrightarrow> cell b r c = cell b r' c' \<Longrightarrow> same_unit b r c r' c' \<Longrightarrow> r = r' \<and> c = c'"
  unfolding units_distinct_def by blast

lemma used_okD:
  assumes "used_ok b" "i < size_b b" "0 < v" "v \<le> size_b b"
  shows "used_row b i v = (\<exists>c < size_b b. cell b i c = v)"
    and "used_col b i v = (\<exists>r < size_b b. cell b r i = v)"
    and "used_box b i v = (\<exists>r < size_b b. \<exists>c < size_b b. box_of b r c = i \<and> cell b r c = v)"
  using assms by (simp_all add: used_ok_def)

lemma unit_used_step:
  fixes n :: nat
  assumes old: "used = (\<exists>r'<n. \<exists>c'<n. U r' c' \<and> f r' c' = u)"
    and new: "used' = (used \<or> (U r c \<and> u = val))"
    and f': "\<And>r' c'. r' < n \<Longrightarrow> c' < n \<Longrightarrow> f' r' c' = (if r' = r \<and> c' = c then val else f r' c')"
    and free: "f r c = (0::nat)" and u: "0 < u" and rc: "r < n" "c < n"
  shows "used' = (\<exists>r'<n. \<exists>c'<n. U r' c' \<and> f' r' c' = u)"
proof
  assume used'
  then consider "used" | "U r c" "u = val" using new by auto
  then show "\<exists>r'<n. \<exists>c'<n. U r' c' \<and> f' r' c' = u"
  proof cases
    case 1
    then obtain r' c' where w: "r' < n" "c' < n" "U r' c'" "f r' c' = u" using old by auto
    then have "\<not> (r' = r \<and> c' = c)" using free u by auto
    then have "f' r' c' = u" using f'[of r' c'] w by auto
    then show ?thesis using w by blast
  next
    case 2
    have "f' r c = u" using f'[of r c] rc 2 by simp
    then show ?thesis using rc 2 by blast
  qed
next
  assume "\<exists>r'<n. \<exists>c'<n. U r' c' \<and> f' r' c' = u"
  then obtain r' c' where w: "r' < n" "c' < n" "U r' c'" "f' r' c' = u" by auto
  show used'
  proof (cases "r' = r \<and> c' = c")
    case True
    then have "u = val" using f'[of r' c'] w by simp
    then show ?thesis using new True w by simp
  next
    case False
    then have "f r' c' = u" using f'[of r' c'] w by auto
    then have used using old w by blast
    then show ?thesis using new by simp
  qed
qed

lemma inserted_used_ok:
  assumes uo: "used_ok b" and ins: "inserted b r c val b'"
    and rc: "r < size_b b" "c < size_b b" and free: "cell b r c = 0"
  shows "used_ok b'"
proof -
  define n where "n = size_b b"
  have sz: "size_b b' = n" using ins by (simp add: inserted_def n_def)
  have rc': "r < n" "c < n" using rc by (simp_all add: n_def)
  have cellb': "cell b' r' c' = (if r' = r \<and> c' = c then val else cell b r' c')"
    if "r' < n" "c' < n" for r' c'
    using inserted_cell[OF ins, of r' c'] that by (simp add: n_def)
  have box': "box_of b' r' c' = box_of b r' c'" for r' c'
    by (simp add: box_of_def sz n_def)
  show ?thesis
    unfolding used_ok_def sz box'
  proof (intro allI impI conjI)
    fix i u assume i: "i < n" and u: "0 < u \<and> u \<le> n"
    have "used_row b' i u = (\<exists>r'<n. \<exists>c'<n. r' = i \<and> cell b' r' c' = u)"
    proof (rule unit_used_step[where used = "used_row b i u" and f = "cell b" and r = r and c = c and val = val])
      show "used_row b i u = (\<exists>r'<n. \<exists>c'<n. r' = i \<and> cell b r' c' = u)"
        using used_okD(1)[OF uo, of i u] i u by (auto simp: n_def)
      show "used_row b' i u = (used_row b i u \<or> r = i \<and> u = val)"
        using inserted_used(1)[OF ins, of i u] i u by (auto simp: n_def)
    next
      show "\<And>r' c'. r' < n \<Longrightarrow> c' < n \<Longrightarrow>
          cell b' r' c' = (if r' = r \<and> c' = c then val else cell b r' c')" by (rule cellb')
      show "cell b r c = 0" by fact
      show "0 < u" using u by simp
      show "r < n" "c < n" by fact+
    qed
    then show "used_row b' i u = (\<exists>c<n. cell b' i c = u)" using i by auto
    have "used_col b' i u = (\<exists>r'<n. \<exists>c'<n. c' = i \<and> cell b' r' c' = u)"
    proof (rule unit_used_step[where used = "used_col b i u" and f = "cell b" and r = r and c = c and val = val])
      show "used_col b i u = (\<exists>r'<n. \<exists>c'<n. c' = i \<and> cell b r' c' = u)"
        using used_okD(2)[OF uo, of i u] i u by (auto simp: n_def)
      show "used_col b' i u = (used_col b i u \<or> c = i \<and> u = val)"
        using inserted_used(2)[OF ins, of i u] i u by (auto simp: n_def)
    next
      show "\<And>r' c'. r' < n \<Longrightarrow> c' < n \<Longrightarrow>
          cell b' r' c' = (if r' = r \<and> c' = c then val else cell b r' c')" by (rule cellb')
      show "cell b r c = 0" by fact
      show "0 < u" using u by simp
      show "r < n" "c < n" by fact+
    qed
    then show "used_col b' i u = (\<exists>r<n. cell b' r i = u)" using i by auto
    show "used_box b' i u = (\<exists>r'<n. \<exists>c'<n. box_of b r' c' = i \<and> cell b' r' c' = u)"
    proof (rule unit_used_step[where used = "used_box b i u" and f = "cell b" and r = r and c = c and val = val])
      show "used_box b i u = (\<exists>r'<n. \<exists>c'<n. box_of b r' c' = i \<and> cell b r' c' = u)"
        using used_okD(3)[OF uo, of i u] i u by (auto simp: n_def)
      show "used_box b' i u = (used_box b i u \<or> box_of b r c = i \<and> u = val)"
        using inserted_used(3)[OF ins, of i u] i u by (auto simp: n_def)
    next
      show "\<And>r' c'. r' < n \<Longrightarrow> c' < n \<Longrightarrow>
          cell b' r' c' = (if r' = r \<and> c' = c then val else cell b r' c')" by (rule cellb')
      show "cell b r c = 0" by fact
      show "0 < u" using u by simp
      show "r < n" "c < n" by fact+
    qed
  qed
qed

lemma inserted_units_distinct:
  assumes wf: "board_wf b" and uo: "used_ok b" and ud: "units_distinct b"
    and ins: "inserted b r c val b'"
    and rc: "r < size_b b" "c < size_b b" and v: "0 < val" "val \<le> size_b b"
    and free: "cell b r c = 0" "\<not> used_row b r val" "\<not> used_col b c val"
      "\<not> used_box b (box_of b r c) val"
  shows "units_distinct b'"
proof -
  define n where "n = size_b b"
  have sz: "size_b b' = n" using ins by (simp add: inserted_def n_def)
  have rc': "r < n" "c < n" using rc by (simp_all add: n_def)
  have cellb': "cell b' r' c' = (if r' = r \<and> c' = c then val else cell b r' c')"
    if "r' < n" "c' < n" for r' c'
    using inserted_cell[OF ins, of r' c'] that by (simp add: n_def)
  have su': "same_unit b' r1 c1 r2 c2 = same_unit b r1 c1 r2 c2" for r1 c1 r2 c2
    by (simp add: same_unit_def box_of_def sz n_def)
  have kn: "box_of b r c < n" unfolding n_def by (rule box_of_less[OF wf rc])
  have novals: "cell b r' c' \<noteq> val" if "r' < n" "c' < n" "same_unit b r c r' c'" for r' c'
  proof
    assume e: "cell b r' c' = val"
    from that(3) consider "r = r'" | "c = c'" | "box_of b r c = box_of b r' c'"
      by (auto simp: same_unit_def)
    then show False
    proof cases
      case 1
      have "used_row b r val = (\<exists>c<n. cell b r c = val)"
        using used_okD(1)[OF uo rc(1) v] by (simp add: n_def)
      moreover have "\<exists>c<n. cell b r c = val"
        using that(2) e 1 by (intro exI[of _ c']) simp
      ultimately have "used_row b r val" by blast
      then show False using free by simp
    next
      case 2
      have "used_col b c val = (\<exists>r<n. cell b r c = val)"
        using used_okD(2)[OF uo rc(2) v] by (simp add: n_def)
      moreover have "\<exists>r<n. cell b r c = val"
        using that(1) e 2 by (intro exI[of _ r']) simp
      ultimately have "used_col b c val" by blast
      then show False using free by simp
    next
      case 3
      have "used_box b (box_of b r c) val =
          (\<exists>r'<n. \<exists>c'<n. box_of b r' c' = box_of b r c \<and> cell b r' c' = val)"
        using used_okD(3)[OF uo _ v, of "box_of b r c"] kn by (simp add: n_def)
      moreover have "\<exists>r'<n. \<exists>c'<n. box_of b r' c' = box_of b r c \<and> cell b r' c' = val"
      proof (intro exI conjI)
        show "r' < n" "c' < n" "cell b r' c' = val" by fact+
        show "box_of b r' c' = box_of b r c" using 3 by simp
      qed
      ultimately have "used_box b (box_of b r c) val" by blast
      then show False using free by simp
    qed
  qed
  show ?thesis
    unfolding units_distinct_def sz su'
  proof (intro allI impI)
    fix r1 c1 r2 c2
    assume a: "r1 < n" "c1 < n" "r2 < n" "c2 < n"
      "cell b' r1 c1 \<noteq> 0 \<and> cell b' r1 c1 = cell b' r2 c2 \<and> same_unit b r1 c1 r2 c2"
    have nz: "cell b' r1 c1 \<noteq> 0" and eq: "cell b' r1 c1 = cell b' r2 c2"
      and su: "same_unit b r1 c1 r2 c2" using a(5) by blast+
    have c1: "cell b' r1 c1 = (if r1 = r \<and> c1 = c then val else cell b r1 c1)"
      by (rule cellb'[OF a(1,2)])
    have c2: "cell b' r2 c2 = (if r2 = r \<and> c2 = c then val else cell b r2 c2)"
      by (rule cellb'[OF a(3,4)])
    have sym: "same_unit b r2 c2 r1 c1" using su unfolding same_unit_def by metis
    show "r1 = r2 \<and> c1 = c2"
    proof (cases "r1 = r \<and> c1 = c")
      case True
      show ?thesis
      proof (rule ccontr)
        assume neq: "\<not> (r1 = r2 \<and> c1 = c2)"
        have "cell b' r1 c1 = val" unfolding c1 using True by simp
        then have "cell b' r2 c2 = val" using eq by simp
        moreover have "\<not> (r2 = r \<and> c2 = c)" using neq True by blast
        ultimately have "cell b r2 c2 = val" unfolding c2 by auto
        moreover have "same_unit b r c r2 c2" using su True by simp
        ultimately show False using novals[OF a(3,4)] by simp
      qed
    next
      case False
      then have o1: "cell b' r1 c1 = cell b r1 c1" unfolding c1 by auto
      show ?thesis
      proof (cases "r2 = r \<and> c2 = c")
        case True
        have "cell b' r2 c2 = val" unfolding c2 using True by simp
        then have "cell b r1 c1 = val" using eq o1 by simp
        moreover have "same_unit b r c r1 c1" using sym True by simp
        ultimately show ?thesis using novals[OF a(1,2)] by simp
      next
        case F2: False
        then have o2: "cell b' r2 c2 = cell b r2 c2" unfolding c2 by auto
        have "cell b r1 c1 \<noteq> 0" "cell b r1 c1 = cell b r2 c2"
          using nz eq unfolding o1 o2 by blast+
        then show ?thesis
          by (intro units_distinctD[OF ud _ _ _ _ _ _ su]) (use a(1-4) in \<open>simp_all add: n_def\<close>)
      qed
    qed
  qed
qed

lemma inserted_core:
  assumes core: "board_core b" and ins: "inserted b r c val b'"
    and rc: "r < size_b b" "c < size_b b" and v: "0 < val" "val \<le> size_b b"
    and free: "cell b r c = 0" "\<not> used_row b r val" "\<not> used_col b c val"
      "\<not> used_box b (box_of b r c) val"
  shows "board_core b'"
proof -
  define n where "n = size_b b"
  have sz: "size_b b' = n" using ins by (simp add: inserted_def n_def)
  have wf: "board_wf b" and wf': "board_wf b'" and uo: "used_ok b" and ud: "units_distinct b"
    using core ins by (simp_all add: board_core_def inserted_def)
  have "values_ok b'"
    unfolding values_ok_def sz
  proof (intro allI impI)
    fix r' c' assume a: "r' < n" "c' < n"
    have "cell b r' c' \<le> n" using core a by (simp add: board_core_def values_ok_def n_def)
    then show "cell b' r' c' \<le> n"
      using inserted_cell[OF ins, of r' c'] a v by (simp add: n_def)
  qed
  moreover have "used_ok b'" by (rule inserted_used_ok[OF uo ins rc free(1)])
  moreover have "units_distinct b'" by (rule inserted_units_distinct[OF wf uo ud ins rc v free])
  moreover have "counts_ok b'"
    unfolding counts_ok_def sz
  proof (intro conjI allI impI)
    fix u assume u: "0 < u \<and> u \<le> n"
    have "count_cells b' (\<lambda>x. x = u) = count_cells b (\<lambda>x. x = u) + (if val = u then 1 else 0)"
      by (rule count_cells_inserted[OF ins rc free(1)]) (use u in simp)
    moreover have "appearances b' ! (u - 1) = appearances b ! (u - 1) + (if u = val then 1 else 0)"
      using inserted_appearances[OF ins, of u] u by (simp add: n_def)
    moreover have "appearances b ! (u - 1) = int (count_cells b (\<lambda>x. x = u))"
      using core u by (simp add: board_core_def counts_ok_def n_def)
    ultimately show "appearances b' ! (u - 1) = int (count_cells b' (\<lambda>x. x = u))" by auto
  next
    have "count_cells b' (\<lambda>x. x \<noteq> 0) = count_cells b (\<lambda>x. x \<noteq> 0) + (if val \<noteq> 0 then 1 else 0)"
      by (rule count_cells_inserted[OF ins rc free(1)]) simp
    moreover have "total_appearances b' = total_appearances b + 1"
      using ins by (simp add: inserted_def)
    moreover have "total_appearances b = int (count_cells b (\<lambda>x. x \<noteq> 0))"
      using core by (simp add: board_core_def counts_ok_def)
    ultimately show "total_appearances b' = int (count_cells b' (\<lambda>x. x \<noteq> 0))" using v by simp
  qed
  ultimately show ?thesis using wf' by (simp add: board_core_def)
qed

lemma inserted_notes_sound:
  assumes wf: "board_wf b" and ns: "notes_sound b" and ins: "inserted b r c val b'"
    and rc: "r < size_b b" "c < size_b b"
  shows "notes_sound b'"
proof -
  define n where "n = size_b b"
  have sz: "size_b b' = n" using ins by (simp add: inserted_def n_def)
  have box': "box_of b' r' c' = box_of b r' c'" for r' c'
    by (simp add: box_of_def sz n_def)
  show ?thesis
    unfolding notes_sound_def sz box'
  proof (intro allI impI)
    fix r' c' u
    assume a: "r' < n" "c' < n" "0 < u \<and> u \<le> n \<and> has_note b' r' c' u"
    have kn: "box_of b r' c' < n" unfolding n_def
      by (rule box_of_less[OF wf]) (use a in \<open>simp_all add: n_def\<close>)
    have n': "has_note b r' c' u" "\<not> (r' = r \<and> c' = c)" "\<not> (u = val \<and> same_unit b r c r' c')"
      using inserted_note[OF ins, of r' c' u] a by (simp_all add: n_def)
    have old: "cell b r' c' = 0" "\<not> used_row b r' u" "\<not> used_col b c' u"
      "\<not> used_box b (box_of b r' c') u"
      using ns a n'(1) by (auto simp: notes_sound_def n_def)
    have "cell b' r' c' = cell b r' c'"
      using inserted_cell[OF ins, of r' c'] a n'(2) by (simp add: n_def)
    moreover have "used_row b' r' u = (used_row b r' u \<or> r' = r \<and> u = val)"
      "used_col b' c' u = (used_col b c' u \<or> c' = c \<and> u = val)"
      "used_box b' (box_of b r' c') u =
         (used_box b (box_of b r' c') u \<or> box_of b r' c' = box_of b r c \<and> u = val)"
      using inserted_used[OF ins, of r' u] inserted_used[OF ins, of c' u]
        inserted_used[OF ins, of "box_of b r' c'" u] a kn by (simp_all add: n_def)
    ultimately show "cell b' r' c' = 0 \<and> \<not> used_row b' r' u \<and> \<not> used_col b' c' u \<and>
        \<not> used_box b' (box_of b r' c') u"
      using old n'(3) by (auto simp: same_unit_def)
  qed
qed

lemma board_insert_inv:
  assumes "board_inv b" "board_insert b row col val = Some (st, b')"
  shows "board_inv b'"
proof -
  from board_insert_cases[OF assms(2)]
  have rng: "0 < row" "row \<le> size_b b" "0 < col" "col \<le> size_b b" "0 < val" "val \<le> size_b b"
    by simp_all
  have wf: "board_wf b" using assms(1) by (simp add: board_inv_def board_core_def)
  show ?thesis
  proof (cases "st = 0")
    case True
    then have ins: "inserted b (row - 1) (col - 1) val b'"
      using board_insert_inserted[OF wf] assms(2) by simp
    have free: "cell b (row - 1) (col - 1) = 0" "\<not> used_row b (row - 1) val"
      "\<not> used_col b (col - 1) val" "\<not> used_box b (box_of b (row - 1) (col - 1)) val"
      using board_insert_cases[OF assms(2)] True by simp_all
    have rc: "row - 1 < size_b b" "col - 1 < size_b b" using rng by simp_all
    have "board_core b'"
      by (rule inserted_core[OF _ ins rc rng(5,6) free]) (use assms(1) in \<open>simp add: board_inv_def\<close>)
    moreover have "notes_sound b'"
      by (rule inserted_notes_sound[OF wf _ ins rc]) (use assms(1) in \<open>simp add: board_inv_def\<close>)
    ultimately show ?thesis by (simp add: board_inv_def)
  next
    case False
    then have "b' = b" using board_insert_cases[OF assms(2)] by auto
    then show ?thesis using assms(1) by simp
  qed
qed

section \<open>A new board satisfies the invariants\<close>


lemma sqrt_down_le: "sqrt_down n k \<le> k"
  by (induction k) auto

lemma int_sqrt_pos: "int_sqrt n * int_sqrt n = n \<Longrightarrow> 0 < n \<Longrightarrow> 0 < int_sqrt n"
  by (auto intro: Nat.gr0I)

lemma count_cells_none: "(\<And>r c. r < size_b b \<Longrightarrow> c < size_b b \<Longrightarrow> \<not> P (cell b r c)) \<Longrightarrow> count_cells b P = 0"
  by (auto simp: count_cells_def filter_empty_conv)

lemma board_create_inv:
  assumes "board_create n = Some b"
  shows "board_inv b"
proof -
  have n: "0 < n" "int_sqrt n * int_sqrt n = n"
    using assms by (auto simp: board_create_def split: if_splits)
  have b: "b = \<lparr>size_b = n, data = replicate n (replicate n 0), appearances = replicate n 0,
                 total_appearances = 0, rows = replicate n (heatmap_create n),
                 cols = replicate n (heatmap_create n), boxs = replicate n (heatmap_create n),
                 notes_b = replicate n (replicate n (heatmap_create n))\<rparr>"
    using assms n by (simp add: board_create_def)
  have sz: "size_b b = n" by (simp add: b)
  have cell0: "cell b r c = 0" if "r < n" "c < n" for r c using that by (simp add: b cell_def)
  have wf: "board_wf b" using n by (simp add: board_wf_def b notes_wf_def)
  have nouse: "\<not> used_row b i v" "\<not> used_col b i v" "\<not> used_box b i v"
    if "i < n" "0 < v" "v \<le> n" for i v
    using that by (simp_all add: used_row_def used_col_def used_box_def b)
  have nonote: "\<not> has_note b r c v" if "r < n" "c < n" "0 < v" "v \<le> n" for r c v
    using that by (simp add: has_note_def b)
  have "values_ok b" by (simp add: values_ok_def sz cell0)
  moreover have "used_ok b" unfolding used_ok_def sz
    using nouse cell0 by auto
  moreover have "units_distinct b" unfolding units_distinct_def sz
    using cell0 by auto
  moreover have "counts_ok b" unfolding counts_ok_def sz
  proof (intro conjI allI impI)
    fix v assume v: "0 < v \<and> v \<le> n"
    have "count_cells b (\<lambda>x. x = v) = 0"
      by (rule count_cells_none) (use v cell0 in \<open>simp add: sz\<close>)
    moreover have "appearances b ! (v - 1) = 0" using v by (auto simp: b)
    ultimately show "appearances b ! (v - 1) = int (count_cells b (\<lambda>x. x = v))"
      by simp
  next
    have "count_cells b (\<lambda>x. x \<noteq> 0) = 0"
      by (rule count_cells_none) (use cell0 in \<open>simp add: sz\<close>)
    then show "total_appearances b = int (count_cells b (\<lambda>x. x \<noteq> 0))" by (simp add: b)
  qed
  moreover have "notes_sound b" unfolding notes_sound_def sz
    using nonote by blast
  ultimately show ?thesis using wf by (simp add: board_inv_def board_core_def)
qed

text \<open>the invariants as the specification words them\<close>

definition invariant_1 :: "board \<Rightarrow> bool" where
  "invariant_1 b \<longleftrightarrow>
     (\<forall>r < size_b b. \<forall>c < size_b b. cell b r c \<noteq> 0 \<longrightarrow>
        used_row b r (cell b r c) \<and> used_col b c (cell b r c) \<and>
        used_box b (box_of b r c) (cell b r c) \<and>
        (\<forall>v. 0 < v \<and> v \<le> size_b b \<longrightarrow> \<not> has_note b r c v))"

definition invariant_2 :: "board \<Rightarrow> bool" where
  "invariant_2 b \<longleftrightarrow>
     (\<forall>v. 0 < v \<and> v \<le> size_b b \<longrightarrow>
        appearances b ! (v - 1) = int (count_cells b (\<lambda>x. x = v))) \<and>
     total_appearances b = sum_list (appearances b) \<and>
     total_appearances b = int (count_cells b (\<lambda>x. x \<noteq> 0))"

lemma filter_by_value:
  assumes "\<And>x. x \<in> set xs \<Longrightarrow> f x \<le> (n::nat)"
  shows "int (length (filter (\<lambda>x. f x \<noteq> 0) xs)) =
         (\<Sum>i<n. int (length (filter (\<lambda>x. f x = Suc i) xs)))"
  using assms
proof (induction xs)
  case Nil
  then show ?case by simp
next
  case (Cons a xs)
  have IH: "int (length (filter (\<lambda>x. f x \<noteq> 0) xs)) =
         (\<Sum>i<n. int (length (filter (\<lambda>x. f x = Suc i) xs)))"
    using Cons by simp
  have a: "f a \<le> n" using Cons.prems by simp
  have "(\<Sum>i<n. int (length (filter (\<lambda>x. f x = Suc i) (a # xs)))) =
        (\<Sum>i<n. int (length (filter (\<lambda>x. f x = Suc i) xs)) + (if f a = Suc i then 1 else 0))"
    by (intro sum.cong) auto
  also have "\<dots> = (\<Sum>i<n. int (length (filter (\<lambda>x. f x = Suc i) xs))) +
        (\<Sum>i<n. if f a = Suc i then 1 else 0)"
    by (simp add: sum.distrib)
  also have "(\<Sum>i<n. if f a = Suc i then 1 else 0) = (if f a \<noteq> 0 then 1 else (0::int))"
  proof (cases "f a")
    case 0
    then show ?thesis by simp
  next
    case (Suc k)
    then have "k < n" using a by simp
    have "(\<Sum>i<n. if f a = Suc i then 1 else 0) = (\<Sum>i<n. if i = k then 1 else (0::int))"
      using Suc by (intro sum.cong) auto
    also have "\<dots> = 1" using \<open>k < n\<close> by simp
    finally show ?thesis using Suc by simp
  qed
  finally show ?case using IH by simp
qed

lemma board_inv_invariants:
  assumes "board_inv b"
  shows "invariant_1 b" and "invariant_2 b"
proof -
  define n where "n = size_b b"
  have wf: "board_wf b" and uo: "used_ok b" and co: "counts_ok b" and vo: "values_ok b"
    and ns: "notes_sound b"
    using assms by (simp_all add: board_inv_def board_core_def)
  show "invariant_1 b" unfolding invariant_1_def n_def[symmetric]
  proof (intro allI impI)
    fix r c assume a: "r < n" "c < n" "cell b r c \<noteq> 0"
    have v: "0 < cell b r c" "cell b r c \<le> n"
      using a vo by (simp_all add: values_ok_def n_def)
    have k: "box_of b r c < n" using box_of_less[OF wf, of r c] a by (simp add: n_def)
    have "used_row b r (cell b r c)"
      using used_okD(1)[OF uo, of r "cell b r c"] a v by (auto simp: n_def)
    moreover have "used_col b c (cell b r c)"
      using used_okD(2)[OF uo, of c "cell b r c"] a v by (auto simp: n_def)
    moreover have "used_box b (box_of b r c) (cell b r c)"
      using used_okD(3)[OF uo, of "box_of b r c" "cell b r c"] a v k by (auto simp: n_def)
    moreover have "\<forall>v. 0 < v \<and> v \<le> n \<longrightarrow> \<not> has_note b r c v"
      using ns a by (auto simp: notes_sound_def n_def)
    ultimately show "used_row b r (cell b r c) \<and> used_col b c (cell b r c) \<and>
        used_box b (box_of b r c) (cell b r c) \<and> (\<forall>v. 0 < v \<and> v \<le> n \<longrightarrow> \<not> has_note b r c v)"
      by simp
  qed
  have len: "length (appearances b) = n" using wf by (simp add: board_wf_def n_def)
  have "sum_list (appearances b) = (\<Sum>i<n. appearances b ! i)"
    using len by (simp add: sum_list_sum_nth atLeast0LessThan)
  also have "\<dots> = (\<Sum>i<n. int (count_cells b (\<lambda>x. x = Suc i)))"
  proof (rule sum.cong)
    fix i assume "i \<in> {..<n}"
    then show "appearances b ! i = int (count_cells b (\<lambda>x. x = Suc i))"
      using co by (auto simp: counts_ok_def n_def dest!: spec[where x = "Suc i"])
  qed simp
  also have "\<dots> = int (count_cells b (\<lambda>x. x \<noteq> 0))"
  proof -
    have "int (length (filter (\<lambda>x. (case x of (r, c) \<Rightarrow> cell b r c) \<noteq> 0) (cells_of n))) =
        (\<Sum>i<n. int (length (filter (\<lambda>x. (case x of (r, c) \<Rightarrow> cell b r c) = Suc i) (cells_of n))))"
      by (rule filter_by_value) (use vo in \<open>auto simp: values_ok_def n_def\<close>)
    then show ?thesis
      by (simp add: count_cells_def n_def[symmetric] split_def)
  qed
  finally have "sum_list (appearances b) = int (count_cells b (\<lambda>x. x \<noteq> 0))" .
  then show "invariant_2 b" using co by (simp add: invariant_2_def counts_ok_def)
qed

section \<open>Boards as main.c builds them\<close>


text \<open>main.c: the clues are inserted in the order they are read, (val, row, col).\<close>

fun insert_clues :: "board \<Rightarrow> (nat \<times> nat \<times> nat) list \<Rightarrow> board option" where
  "insert_clues b [] = Some b"
| "insert_clues b ((val, row, col) # rest) =
     (case board_insert b row col val of None \<Rightarrow> None | Some (st, b') \<Rightarrow> insert_clues b' rest)"

definition main_board :: "nat \<Rightarrow> (nat \<times> nat \<times> nat) list \<Rightarrow> board option" where
  "main_board sz cs = (case board_create sz of None \<Rightarrow> None | Some b \<Rightarrow> insert_clues b cs)"

lemma insert_clues_inv: "board_inv b \<Longrightarrow> insert_clues b cs = Some b' \<Longrightarrow> board_inv b'"
proof (induction cs arbitrary: b)
  case Nil
  then show ?case by simp
next
  case (Cons x cs)
  obtain val row col where x: "x = (val, row, col)" by (cases x)
  from Cons.prems(2) obtain st b1 where 1: "board_insert b row col val = Some (st, b1)"
    and 2: "insert_clues b1 cs = Some b'"
    by (auto simp: x split: option.splits)
  from board_insert_inv[OF Cons.prems(1) 1] Cons.IH 2 show ?case by blast
qed

lemma main_board_inv: "main_board sz cs = Some b \<Longrightarrow> board_inv b"
  by (auto simp: main_board_def split: option.splits dest: board_create_inv insert_clues_inv)

text \<open>The board of size 4 with the one clue 1 at row 1, column 1.\<close>

definition board_a :: board where
  "board_a = the (main_board 4 [(1, 1, 1)])"


section \<open>\<open>board_insert\<close>: accepted and refused insertions\<close>


lemma notes_count_zero:
  assumes "board_wf b" "r < size_b b" "c < size_b b"
  shows "count (notes_b b ! r ! c) = 0 \<longleftrightarrow> (\<forall>v. 0 < v \<and> v \<le> size_b b \<longrightarrow> \<not> has_note b r c v)"
proof -
  have "heatmap_wf (size_b b) (notes_b b ! r ! c)"
    using assms by (simp add: board_wf_def notes_wf_def)
  from heatmap_count_zero_iff[OF this] show ?thesis by (simp add: has_note_def)
qed

text \<open>
  C2. On a board that satisfies the invariants of the data model, an insertion that
  returns 0 puts \<open>val\<close> into the cell, adds one to \<open>appearances[val]\<close> and to the
  total, marks \<open>val\<close> in the used-sets of the row, the column and the box, leaves the
  cell without notes and no cell of the row, the column or the box with the note
  \<open>val\<close>, and the invariants hold again. (A result other than \<open>None\<close> already says
  that \<open>row\<close>, \<open>col\<close> and \<open>val\<close> are in range.)
\<close>

theorem board_insert_ok:
  assumes "board_inv b" and "board_insert b row col val = Some (0, b')"
  shows "cell b' (row - 1) (col - 1) = val \<and>
         appearances b' ! (val - 1) = appearances b ! (val - 1) + 1 \<and>
         total_appearances b' = total_appearances b + 1 \<and>
         used_row b' (row - 1) val \<and> used_col b' (col - 1) val \<and>
         used_box b' (box_of b' (row - 1) (col - 1)) val \<and>
         (\<forall>v. 0 < v \<and> v \<le> size_b b' \<longrightarrow> \<not> has_note b' (row - 1) (col - 1) v) \<and>
         count (notes_b b' ! (row - 1) ! (col - 1)) = 0 \<and>
         (\<forall>r < size_b b'. \<forall>c < size_b b'.
            same_unit b' (row - 1) (col - 1) r c \<longrightarrow> \<not> has_note b' r c val) \<and>
         invariant_1 b' \<and> invariant_2 b' \<and> board_inv b'"
proof -
  define n where "n = size_b b"
  define r where "r = row - 1"
  define c where "c = col - 1"
  have wf: "board_wf b" using assms(1) by (simp add: board_inv_def board_core_def)
  from board_insert_cases[OF assms(2)]
  have rng: "0 < row" "row \<le> n" "0 < col" "col \<le> n" "0 < val" "val \<le> n"
    by (simp_all add: n_def)
  then have rc: "r < n" "c < n" by (simp_all add: r_def c_def)
  have ins: "inserted b r c val b'"
    unfolding r_def c_def by (rule board_insert_inserted[OF wf assms(2)])
  have sz: "size_b b' = n" using inserted_size[OF ins] by (simp add: n_def)
  have wf': "board_wf b'" by (rule inserted_wf[OF ins])
  have inv': "board_inv b'" by (rule board_insert_inv[OF assms])
  have box': "box_of b' r' c' = box_of b r' c'" for r' c'
    by (simp add: box_of_def sz n_def)
  have kn: "box_of b r c < n" using box_of_less[OF wf, of r c] rc by (simp add: n_def)
  have 1: "cell b' r c = val" using inserted_cell[OF ins, of r c] rc by (simp add: n_def)
  have 2: "appearances b' ! (val - 1) = appearances b ! (val - 1) + 1"
    using inserted_appearances[OF ins, of val] rng by (simp add: n_def)
  have 3: "total_appearances b' = total_appearances b + 1" by (rule inserted_total[OF ins])
  have 4: "used_row b' r val" "used_col b' c val" "used_box b' (box_of b' r c) val"
    using inserted_used[OF ins, of r val] inserted_used[OF ins, of c val]
      inserted_used[OF ins, of "box_of b r c" val] rc rng kn
    by (simp_all add: n_def box')
  have 5: "\<forall>v. 0 < v \<and> v \<le> size_b b' \<longrightarrow> \<not> has_note b' r c v"
    using inserted_note[OF ins, of r c] rc by (simp add: sz n_def)
  have 6: "count (notes_b b' ! r ! c) = 0"
    using notes_count_zero[OF wf', of r c] 5 rc by (simp add: sz)
  have 7: "\<forall>r' < size_b b'. \<forall>c' < size_b b'. same_unit b' r c r' c' \<longrightarrow> \<not> has_note b' r' c' val"
    unfolding sz
  proof (intro allI impI)
    fix r' c' assume a: "r' < n" "c' < n" "same_unit b' r c r' c'"
    then have "same_unit b r c r' c'" by (simp add: same_unit_def box')
    then show "\<not> has_note b' r' c' val"
      using inserted_note[OF ins, of r' c' val] a rng by (simp add: n_def)
  qed
  show ?thesis
    unfolding r_def[symmetric] c_def[symmetric]
    using 1 2 3 4 5 6 7 inv' board_inv_invariants[OF inv'] by simp
qed

theorem board_insert_ok_witness:
  "board_inv (the (board_create 4)) \<and>
   fst (the (board_insert (the (board_create 4)) 2 3 4)) = 0 \<and>
   cell (snd (the (board_insert (the (board_create 4)) 2 3 4))) 1 2 = 4 \<and>
   total_appearances (snd (the (board_insert (the (board_create 4)) 2 3 4))) = 1 \<and>
   board_inv (snd (the (board_insert (the (board_create 4)) 2 3 4)))"
proof -
  define b0 where "b0 = the (board_create 4)"
  define b1 where "b1 = snd (the (board_insert b0 2 3 4))"
  have "board_create 4 \<noteq> None" by code_simp
  then have c: "board_create 4 = Some b0" by (simp add: b0_def)
  have inv0: "board_inv b0" by (rule board_create_inv[OF c])
  have "board_insert b0 2 3 4 \<noteq> None" "fst (the (board_insert b0 2 3 4)) = 0"
    unfolding b0_def by code_simp+
  then have ins: "board_insert b0 2 3 4 = Some (0, b1)"
    by (auto simp: b1_def)
  have t0: "total_appearances b0 = 0" unfolding b0_def by code_simp
  from board_insert_ok[OF inv0 ins] inv0 ins t0 show ?thesis
    unfolding b0_def[symmetric] b1_def[symmetric] by simp
qed

text \<open>
  C3. With \<open>row\<close>, \<open>col\<close> and \<open>val\<close> in range: a filled target cell gives status 1;
  an empty target cell whose row, column or box already has \<open>val\<close> in its used-set
  gives status 2 (on a board that satisfies the invariants this is the case exactly when
  a cell of the row, the column or the box holds \<open>val\<close>); a status other than 0 comes
  with the board unchanged; and inserting the same \<open>(row, col, val)\<close> again after
  status 0 gives status 1 and the board unchanged.
\<close>

theorem board_insert_refused:
  assumes "0 < row" "row \<le> size_b b" "0 < col" "col \<le> size_b b" "0 < val" "val \<le> size_b b"
  shows "(cell b (row - 1) (col - 1) \<noteq> 0 \<longrightarrow> board_insert b row col val = Some (1, b)) \<and>
         (cell b (row - 1) (col - 1) = 0 \<and>
            (used_row b (row - 1) val \<or> used_col b (col - 1) val \<or>
             used_box b (box_of b (row - 1) (col - 1)) val) \<longrightarrow>
          board_insert b row col val = Some (2, b)) \<and>
         (board_inv b \<and> cell b (row - 1) (col - 1) = 0 \<and>
            (\<exists>r < size_b b. \<exists>c < size_b b.
               same_unit b (row - 1) (col - 1) r c \<and> cell b r c = val) \<longrightarrow>
          board_insert b row col val = Some (2, b)) \<and>
         (\<forall>st b'. board_insert b row col val = Some (st, b') \<and> st \<noteq> 0 \<longrightarrow>
            (st = 1 \<or> st = 2) \<and> b' = b) \<and>
         (\<forall>b'. board_wf b \<and> board_insert b row col val = Some (0, b') \<longrightarrow>
            board_insert b' row col val = Some (1, b'))"
proof (intro conjI allI impI)
  assume "cell b (row - 1) (col - 1) \<noteq> 0"
  then show "board_insert b row col val = Some (1, b)"
    using assms by (simp add: board_insert_def board_get_size_def cell_def)
next
  assume "cell b (row - 1) (col - 1) = 0 \<and>
      (used_row b (row - 1) val \<or> used_col b (col - 1) val \<or>
       used_box b (box_of b (row - 1) (col - 1)) val)"
  then show "board_insert b row col val = Some (2, b)"
    using assms
    by (auto simp: board_insert_def board_get_size_def cell_def used_row_def used_col_def
        used_box_def box_of_def Let_def)
next
  assume a: "board_inv b \<and> cell b (row - 1) (col - 1) = 0 \<and>
      (\<exists>r < size_b b. \<exists>c < size_b b. same_unit b (row - 1) (col - 1) r c \<and> cell b r c = val)"
  then obtain r c where rc: "r < size_b b" "c < size_b b"
    "same_unit b (row - 1) (col - 1) r c" "cell b r c = val" by blast
  have wf: "board_wf b" and uo: "used_ok b" using a by (simp_all add: board_inv_def board_core_def)
  have rc0: "row - 1 < size_b b" "col - 1 < size_b b" using assms by simp_all
  have kn: "box_of b (row - 1) (col - 1) < size_b b" by (rule box_of_less[OF wf rc0])
  from rc(3) consider "row - 1 = r" | "col - 1 = c" | "box_of b (row - 1) (col - 1) = box_of b r c"
    by (auto simp: same_unit_def)
  then have "used_row b (row - 1) val \<or> used_col b (col - 1) val \<or>
       used_box b (box_of b (row - 1) (col - 1)) val"
  proof cases
    case 1
    have "\<exists>c < size_b b. cell b (row - 1) c = val"
      using rc 1 by (intro exI[of _ c]) simp
    then show ?thesis using used_okD(1)[OF uo rc0(1) assms(5,6)] by simp
  next
    case 2
    have "\<exists>r < size_b b. cell b r (col - 1) = val"
      using rc 2 by (intro exI[of _ r]) simp
    then show ?thesis using used_okD(2)[OF uo rc0(2) assms(5,6)] by simp
  next
    case 3
    have "\<exists>r < size_b b. \<exists>c < size_b b. box_of b r c = box_of b (row - 1) (col - 1) \<and> cell b r c = val"
    proof (intro exI conjI)
      show "r < size_b b" "c < size_b b" "cell b r c = val" by fact+
      show "box_of b r c = box_of b (row - 1) (col - 1)" using 3 by simp
    qed
    then show ?thesis using used_okD(3)[OF uo kn assms(5,6)] by simp
  qed
  then show "board_insert b row col val = Some (2, b)"
    using assms a
    by (auto simp: board_insert_def board_get_size_def cell_def used_row_def used_col_def
        used_box_def box_of_def Let_def)
next
  fix st b' assume "board_insert b row col val = Some (st, b') \<and> st \<noteq> 0"
  then show "st = 1 \<or> st = 2" "b' = b"
    using board_insert_cases[of b row col val st b'] by auto
next
  fix b' assume a: "board_wf b \<and> board_insert b row col val = Some (0, b')"
  then have ins: "inserted b (row - 1) (col - 1) val b'"
    using board_insert_inserted by blast
  have "cell b' (row - 1) (col - 1) = val"
    using inserted_cell[OF ins, of "row - 1" "col - 1"] assms by simp
  then show "board_insert b' row col val = Some (1, b')"
    using assms inserted_size[OF ins]
    by (simp add: board_insert_def board_get_size_def cell_def)
qed

theorem board_insert_refused_witness:
  "board_insert board_a 1 1 1 = Some (1, board_a) \<and>
   board_insert board_a 1 2 1 = Some (2, board_a) \<and>
   board_insert board_a 2 2 1 = Some (2, board_a)"
proof -
  have sz: "size_b board_a = 4" by code_simp
  have f: "cell board_a 0 0 \<noteq> 0" "cell board_a 0 1 = 0" "cell board_a 1 1 = 0"
    "used_row board_a 0 1" "used_box board_a (box_of board_a 1 1) 1"
    by code_simp+
  have 1: "board_insert board_a 1 1 1 = Some (1, board_a)"
    using board_insert_refused[of 1 board_a 1 1, THEN conjunct1] f(1) by (simp add: sz)
  have 2: "board_insert board_a 1 2 1 = Some (2, board_a)"
    using board_insert_refused[of 1 board_a 2 1, THEN conjunct2, THEN conjunct1] f(2,4)
    by (simp add: sz)
  have 3: "board_insert board_a 2 2 1 = Some (2, board_a)"
    using board_insert_refused[of 2 board_a 2 1, THEN conjunct2, THEN conjunct1] f(3,5)
    by (simp add: sz)
  show ?thesis using 1 2 3 by simp
qed

section \<open>Copying a board gives the source\<close>

lemma fold_zero_row: "length r = n \<Longrightarrow> fold (\<lambda>j r. r[j := 0::nat]) [0..<n] r = replicate n 0"
proof -
  have "k \<le> length r \<Longrightarrow> fold (\<lambda>j r. r[j := 0::nat]) [0..<k] r = replicate k 0 @ drop k r" for k
  proof (induction k)
    case 0
    then show ?case by simp
  next
    case (Suc k)
    then have "fold (\<lambda>j r. r[j := 0]) [0..<Suc k] r = (replicate k 0 @ drop k r)[k := 0]"
      by simp
    also have "\<dots> = replicate k 0 @ (drop k r)[0 := 0]"
      by (simp add: list_update_append)
    also have "(drop k r)[0 := 0] = 0 # drop (Suc k) r"
      using Suc.prems by (simp add: Cons_nth_drop_Suc[symmetric])
    also have "replicate k 0 @ 0 # drop (Suc k) r = replicate (Suc k) 0 @ drop (Suc k) r"
      by (simp add: replicate_append_same)
    finally show ?case .
  qed
  from this[of n] show "length r = n \<Longrightarrow> ?thesis" by simp
qed

text \<open>The state of the first loop of \<open>board_copy\<close> after the rows below \<open>k\<close>.\<close>

definition cleared :: "board \<Rightarrow> nat \<Rightarrow> board \<Rightarrow> bool" where
  "cleared dest k d \<longleftrightarrow>
     size_b d = size_b dest \<and> total_appearances d = 0 \<and> notes_b d = notes_b dest \<and>
     length (data d) = size_b dest \<and> length (appearances d) = size_b dest \<and>
     length (rows d) = size_b dest \<and> length (cols d) = size_b dest \<and>
     length (boxs d) = size_b dest \<and>
     (\<forall>i<k. rows d ! i = heatmap_create (size_b dest) \<and> cols d ! i = heatmap_create (size_b dest) \<and>
            boxs d ! i = heatmap_create (size_b dest) \<and> appearances d ! i = 0 \<and>
            data d ! i = replicate (size_b dest) 0) \<and>
     (\<forall>i. k \<le> i \<and> i < size_b dest \<longrightarrow>
            rows d ! i = rows dest ! i \<and> cols d ! i = cols dest ! i \<and>
            boxs d ! i = boxs dest ! i \<and> data d ! i = data dest ! i)"

lemma cleared_step:
  assumes wf: "board_wf dest" and c: "cleared dest k d" and k: "k < size_b dest"
  shows "cleared dest (Suc k) (board_copy_clear (size_b dest) (heatmap_create (size_b dest)) k d)"
proof -
  define n where "n = size_b dest"
  define e where "e = heatmap_create n"
  have hw: "heatmap_wf n (rows dest ! k)" "heatmap_wf n (cols dest ! k)" "heatmap_wf n (boxs dest ! k)"
    using wf k by (simp_all add: board_wf_def n_def)
  have lr: "length (data dest ! k) = n" using wf k by (simp add: board_wf_def n_def)
  have old: "rows d ! k = rows dest ! k" "cols d ! k = cols dest ! k" "boxs d ! k = boxs dest ! k"
    "data d ! k = data dest ! k"
    using c k by (simp_all add: cleared_def)
  have len: "length (data d) = n" "length (appearances d) = n" "length (rows d) = n"
    "length (cols d) = n" "length (boxs d) = n"
    using c by (simp_all add: cleared_def n_def)
  have hc: "heatmap_copy (rows d ! k) e = e" "heatmap_copy (cols d ! k) e = e"
    "heatmap_copy (boxs d ! k) e = e"
    unfolding old e_def using hw by (simp_all add: heatmap_copy_eq[where n = n])
  have z: "fold (\<lambda>j r. r[j := 0]) [0..<n] (data d ! k) = replicate n 0"
    unfolding old by (rule fold_zero_row[OF lr])
  have kn: "k < n" using k by (simp add: n_def)
  show ?thesis
    unfolding cleared_def n_def[symmetric] e_def[symmetric] board_copy_clear_def
  proof (intro conjI allI impI)
    fix i assume "i < Suc k"
    then have "i < k \<or> i = k" by auto
    then show "rows (d\<lparr>rows := (rows d)[k := heatmap_copy (rows d ! k) e],
          cols := (cols d)[k := heatmap_copy (cols d ! k) e],
          boxs := (boxs d)[k := heatmap_copy (boxs d ! k) e],
          appearances := (appearances d)[k := 0],
          data := (data d)[k := fold (\<lambda>j r. r[j := 0]) [0..<n] (data d ! k)]\<rparr>) ! i = e"
      "cols (d\<lparr>rows := (rows d)[k := heatmap_copy (rows d ! k) e],
          cols := (cols d)[k := heatmap_copy (cols d ! k) e],
          boxs := (boxs d)[k := heatmap_copy (boxs d ! k) e],
          appearances := (appearances d)[k := 0],
          data := (data d)[k := fold (\<lambda>j r. r[j := 0]) [0..<n] (data d ! k)]\<rparr>) ! i = e"
      "boxs (d\<lparr>rows := (rows d)[k := heatmap_copy (rows d ! k) e],
          cols := (cols d)[k := heatmap_copy (cols d ! k) e],
          boxs := (boxs d)[k := heatmap_copy (boxs d ! k) e],
          appearances := (appearances d)[k := 0],
          data := (data d)[k := fold (\<lambda>j r. r[j := 0]) [0..<n] (data d ! k)]\<rparr>) ! i = e"
      "appearances (d\<lparr>rows := (rows d)[k := heatmap_copy (rows d ! k) e],
          cols := (cols d)[k := heatmap_copy (cols d ! k) e],
          boxs := (boxs d)[k := heatmap_copy (boxs d ! k) e],
          appearances := (appearances d)[k := 0],
          data := (data d)[k := fold (\<lambda>j r. r[j := 0]) [0..<n] (data d ! k)]\<rparr>) ! i = 0"
      "data (d\<lparr>rows := (rows d)[k := heatmap_copy (rows d ! k) e],
          cols := (cols d)[k := heatmap_copy (cols d ! k) e],
          boxs := (boxs d)[k := heatmap_copy (boxs d ! k) e],
          appearances := (appearances d)[k := 0],
          data := (data d)[k := fold (\<lambda>j r. r[j := 0]) [0..<n] (data d ! k)]\<rparr>) ! i = replicate n 0"
      using c kn len hc z by (auto simp: nth_list_update cleared_def n_def e_def)
  qed (use c k len in \<open>auto simp: cleared_def n_def nth_list_update\<close>)
qed

lemma cleared_fold:
  assumes wf: "board_wf dest" and k: "k \<le> size_b dest"
  shows "cleared dest k (fold (board_copy_clear (size_b dest) (heatmap_create (size_b dest)))
           [0..<k] (dest\<lparr>total_appearances := 0\<rparr>))"
  using k
proof (induction k)
  case 0
  show ?case using wf by (simp add: cleared_def board_wf_def)
next
  case (Suc k)
  then show ?case by (simp add: cleared_step[OF wf])
qed

lemma board_core_notes_update:
  assumes "board_core b" "notes_wf (size_b b) ns"
  shows "board_core (b\<lparr>notes_b := ns\<rparr>)"
proof -
  let ?b = "b\<lparr>notes_b := ns\<rparr>"
  have c: "cell ?b = cell b" by (intro ext) (simp add: cell_def)
  have u: "used_row ?b = used_row b" "used_col ?b = used_col b" "used_box ?b = used_box b"
    by (intro ext, simp add: used_row_def used_col_def used_box_def)+
  have k: "box_of ?b = box_of b" by (intro ext) (simp add: box_of_def)
  have s: "same_unit ?b = same_unit b" by (intro ext) (simp add: same_unit_def k)
  have n: "count_cells ?b = count_cells b" by (intro ext) (simp add: count_cells_def c)
  have "board_wf ?b" using assms by (simp add: board_core_def board_wf_def)
  moreover have "values_ok ?b" using assms(1) by (simp add: board_core_def values_ok_def c)
  moreover have "used_ok ?b" using assms(1) by (simp add: board_core_def used_ok_def c u k)
  moreover have "units_distinct ?b"
    using assms(1) by (simp add: board_core_def units_distinct_def c s)
  moreover have "counts_ok ?b" using assms(1) by (simp add: board_core_def counts_ok_def n)
  ultimately show ?thesis by (simp add: board_core_def)
qed

lemma cell_notes_update [simp]: "cell (b\<lparr>notes_b := ns\<rparr>) r c = cell b r c"
  by (simp add: cell_def)

lemma cleared_all:
  assumes wf: "board_wf dest"
    and c: "cleared dest (size_b dest) d"
  shows "board_core d \<and> size_b d = size_b dest \<and> notes_b d = notes_b dest \<and>
         (\<forall>r < size_b dest. \<forall>c < size_b dest. cell d r c = 0)"
proof -
  define n where "n = size_b dest"
  have n: "0 < n" "int_sqrt n * int_sqrt n = n" using wf by (simp_all add: board_wf_def n_def)
  then obtain b0 where b0: "board_create n = Some b0" by (simp add: board_create_def)
  have b0_eq: "b0 = \<lparr>size_b = n, data = replicate n (replicate n 0), appearances = replicate n 0,
                 total_appearances = 0, rows = replicate n (heatmap_create n),
                 cols = replicate n (heatmap_create n), boxs = replicate n (heatmap_create n),
                 notes_b = replicate n (replicate n (heatmap_create n))\<rparr>"
    using b0 n by (simp add: board_create_def)
  have core0: "board_core b0" using board_create_inv[OF b0] by (simp add: board_inv_def)
  have "rows d = replicate n (heatmap_create n)" "cols d = replicate n (heatmap_create n)"
    "boxs d = replicate n (heatmap_create n)" "appearances d = replicate n 0"
    "data d = replicate n (replicate n 0)"
    using c by (auto simp: cleared_def n_def intro!: nth_equalityI)
  moreover have "size_b d = n" "total_appearances d = 0" "notes_b d = notes_b dest"
    using c by (simp_all add: cleared_def n_def)
  ultimately have d: "d = b0\<lparr>notes_b := notes_b dest\<rparr>"
    by (simp add: b0_eq)
  have "board_core (b0\<lparr>notes_b := notes_b dest\<rparr>)"
    by (rule board_core_notes_update[OF core0]) (use wf in \<open>simp add: b0_eq board_wf_def n_def\<close>)
  moreover have "cell d r c = 0" if "r < n" "c < n" for r c
    using that by (simp add: d b0_eq cell_def)
  ultimately show ?thesis
    using d by (simp add: n_def[symmetric] b0_eq)
qed

text \<open>
  The state of the second loop of \<open>board_copy\<close>: the cells in \<open>D\<close> are copied, the
  others are still empty in the destination.
\<close>

definition copied :: "board \<Rightarrow> (nat \<times> nat) set \<Rightarrow> board \<Rightarrow> bool" where
  "copied src D d \<longleftrightarrow>
     board_core d \<and> size_b d = size_b src \<and>
     (\<forall>r < size_b src. \<forall>c < size_b src.
        cell d r c = (if (r, c) \<in> D then cell src r c else 0)) \<and>
     (\<forall>r < size_b src. \<forall>c < size_b src.
        (r, c) \<in> D \<longrightarrow> notes_b d ! r ! c = notes_b src ! r ! c)"

lemma copied_cell:
  "copied src D d \<Longrightarrow> r < size_b src \<Longrightarrow> c < size_b src \<Longrightarrow>
   cell d r c = (if (r, c) \<in> D then cell src r c else 0)"
  by (simp add: copied_def)

lemma copied_notes:
  "copied src D d \<Longrightarrow> r < size_b src \<Longrightarrow> c < size_b src \<Longrightarrow> (r, c) \<in> D \<Longrightarrow>
   notes_b d ! r ! c = notes_b src ! r ! c"
  by (simp add: copied_def)

lemma same_unit_size: "size_b d = size_b b \<Longrightarrow> same_unit d r c r' c' = same_unit b r c r' c'"
  by (simp add: same_unit_def box_of_def)

lemma box_of_size: "size_b d = size_b b \<Longrightarrow> box_of d r c = box_of b r c"
  by (simp add: box_of_def)

text \<open>A value held by a cell is in the used-sets of the cell's units.\<close>

lemma used_of_cell:
  assumes wf: "board_wf b" and uo: "used_ok b"
    and rc: "r < size_b b" "c < size_b b" and v: "cell b r c = v" "0 < v" "v \<le> size_b b"
  shows "used_row b r v" "used_col b c v" "used_box b (box_of b r c) v"
proof -
  have kn: "box_of b r c < size_b b" by (rule box_of_less[OF wf rc])
  have "\<exists>c' < size_b b. cell b r c' = v" using rc v by (intro exI[of _ c]) simp
  then show "used_row b r v" using used_okD(1)[OF uo rc(1) v(2,3)] by simp
  have "\<exists>r' < size_b b. cell b r' c = v" using rc v by (intro exI[of _ r]) simp
  then show "used_col b c v" using used_okD(2)[OF uo rc(2) v(2,3)] by simp
  have "\<exists>r' < size_b b. \<exists>c' < size_b b. box_of b r' c' = box_of b r c \<and> cell b r' c' = v"
  proof (intro exI conjI)
    show "r < size_b b" "c < size_b b" "cell b r c = v" "box_of b r c = box_of b r c"
      using rc v by simp_all
  qed
  then show "used_box b (box_of b r c) v" using used_okD(3)[OF uo kn v(2,3)] by simp
qed

text \<open>A value in a used-set is held by a cell of the unit.\<close>

lemma cell_of_used:
  assumes wf: "board_wf b" and uo: "used_ok b"
    and rc: "r < size_b b" "c < size_b b" and v: "0 < v" "v \<le> size_b b"
    and u: "used_row b r v \<or> used_col b c v \<or> used_box b (box_of b r c) v"
  shows "\<exists>r' < size_b b. \<exists>c' < size_b b. same_unit b r c r' c' \<and> cell b r' c' = v"
proof -
  have kn: "box_of b r c < size_b b" by (rule box_of_less[OF wf rc])
  from u consider "used_row b r v" | "used_col b c v" | "used_box b (box_of b r c) v" by blast
  then show ?thesis
  proof cases
    case 1
    then obtain c' where "c' < size_b b" "cell b r c' = v"
      using used_okD(1)[OF uo rc(1) v] by auto
    then show ?thesis using rc by (intro exI[of _ r] conjI exI[of _ c']) (simp_all add: same_unit_def)
  next
    case 2
    then obtain r' where "r' < size_b b" "cell b r' c = v"
      using used_okD(2)[OF uo rc(2) v] by auto
    then show ?thesis using rc by (intro exI[of _ r'] conjI exI[of _ c]) (simp_all add: same_unit_def)
  next
    case 3
    then obtain r' c' where "r' < size_b b" "c' < size_b b" "box_of b r' c' = box_of b r c"
      "cell b r' c' = v"
      using used_okD(3)[OF uo kn v] by auto
    then show ?thesis by (intro exI[of _ r'] conjI exI[of _ c']) (simp_all add: same_unit_def)
  qed
qed

lemma copied_step_filled:
  assumes inv: "board_inv src" and cp: "copied src D d"
    and ij: "i < size_b src" "j < size_b src" "(i, j) \<notin> D"
    and v: "cell src i j \<noteq> 0"
  shows "\<exists>d'. board_insert d (i + 1) (j + 1) (cell src i j) = Some (0, d') \<and>
           copied src (insert (i, j) D) d'"
proof -
  define n where "n = size_b src"
  define v where "v = cell src i j"
  have wfs: "board_wf src" and uos: "used_ok src" and uds: "units_distinct src"
    and vos: "values_ok src" and nss: "notes_sound src"
    using inv by (simp_all add: board_inv_def board_core_def)
  have core: "board_core d" and sz: "size_b d = n" using cp by (simp_all add: copied_def n_def)
  have wfd: "board_wf d" and uod: "used_ok d" using core by (simp_all add: board_core_def)
  have ij': "i < size_b d" "j < size_b d" using ij sz by (simp_all add: n_def)
  have vr: "0 < v" "v \<le> n" using v vos ij by (simp_all add: v_def values_ok_def n_def)
  have vr': "0 < v" "v \<le> size_b d" using vr sz by simp_all
  have su: "same_unit d r c r' c' = same_unit src r c r' c'" for r c r' c'
    by (rule same_unit_size) (simp add: sz n_def)
  have bx: "box_of d r c = box_of src r c" for r c
    by (rule box_of_size) (simp add: sz n_def)
  have empty: "cell d i j = 0" using copied_cell[OF cp ij(1,2)] ij(3) by simp
  have unused: "\<not> (used_row d i v \<or> used_col d j v \<or> used_box d (box_of d i j) v)"
  proof
    assume "used_row d i v \<or> used_col d j v \<or> used_box d (box_of d i j) v"
    from cell_of_used[OF wfd uod ij' vr' this]
    obtain r' c' where w: "r' < n" "c' < n" "same_unit d i j r' c'" "cell d r' c' = v"
      by (auto simp: sz)
    have cd: "cell d r' c' = (if (r', c') \<in> D then cell src r' c' else 0)"
      using copied_cell[OF cp, of r' c'] w by (simp add: n_def)
    have inD: "(r', c') \<in> D" using cd w(4) vr(1) by (cases "(r', c') \<in> D") auto
    then have "cell src r' c' = v" using cd w(4) by simp
    then have "cell src i j = cell src r' c'" by (simp add: v_def)
    moreover have "same_unit src i j r' c'" using w(3) by (simp add: su)
    ultimately have "i = r' \<and> j = c'"
      using units_distinctD[OF uds ij(1,2), of r' c'] w(1,2) v by (simp add: n_def)
    then show False using inD ij(3) by simp
  qed
  have "\<exists>st d'. board_insert d (i + 1) (j + 1) v = Some (st, d')"
    using ij' vr' by (auto simp: board_insert_def board_get_size_def Let_def)
  then obtain st d' where bi: "board_insert d (i + 1) (j + 1) v = Some (st, d')" by blast
  from board_insert_cases[OF bi] empty unused have st: "st = 0" by auto
  have ins: "inserted d i j v d'"
    using board_insert_inserted[OF wfd bi[unfolded st]] by simp
  have core': "board_core d'"
    by (rule inserted_core[OF core ins ij' vr' empty]) (use unused in auto)
  have sz': "size_b d' = n" using inserted_size[OF ins] sz by simp
  have wfd': "board_wf d'" by (rule inserted_wf[OF ins])
  have cells: "cell d' r c = (if (r, c) \<in> insert (i, j) D then cell src r c else 0)"
    if "r < n" "c < n" for r c
  proof -
    have "cell d' r c = (if r = i \<and> c = j then v else cell d r c)"
      using inserted_cell[OF ins, of r c] that sz by simp
    moreover have "cell d r c = (if (r, c) \<in> D then cell src r c else 0)"
      using copied_cell[OF cp, of r c] that by (simp add: n_def)
    ultimately show ?thesis by (auto simp: v_def)
  qed
  have hwd': "heatmap_wf n (notes_b d' ! r ! c)" if "r < n" "c < n" for r c
    using wfd' that by (simp add: board_wf_def notes_wf_def sz')
  have hws: "heatmap_wf n (notes_b src ! r ! c)" if "r < n" "c < n" for r c
    using wfs that by (simp add: board_wf_def notes_wf_def n_def)
  have nts: "notes_b d' ! r ! c = notes_b src ! r ! c"
    if rc: "r < n" "c < n" and mem: "(r, c) \<in> insert (i, j) D" for r c
  proof (rule heatmap_eqI[OF hwd'[OF rc] hws[OF rc]])
    fix u assume u: "0 < u" "u \<le> n"
    have new: "has_note d' r c u =
        (has_note d r c u \<and> \<not> (r = i \<and> c = j) \<and> \<not> (u = v \<and> same_unit d i j r c))"
      using inserted_note[OF ins, of r c u] rc u sz by simp
    show "heatmap_check (notes_b d' ! r ! c) u = heatmap_check (notes_b src ! r ! c) u"
    proof (cases "r = i \<and> c = j")
      case True
      have "\<not> has_note src i j u"
        using nss ij u v by (auto simp: notes_sound_def n_def)
      then show ?thesis using new True by (simp add: has_note_def)
    next
      case False
      then have inD: "(r, c) \<in> D" using mem by auto
      have old: "notes_b d ! r ! c = notes_b src ! r ! c"
        using copied_notes[OF cp _ _ inD] rc by (simp add: n_def)
      have "\<not> (has_note src r c u \<and> u = v \<and> same_unit src i j r c)"
      proof
        assume a: "has_note src r c u \<and> u = v \<and> same_unit src i j r c"
        then have nu: "\<not> used_row src r v" "\<not> used_col src c v"
          "\<not> used_box src (box_of src r c) v"
          using nss rc u by (auto simp: notes_sound_def n_def)
        have us: "used_row src i v" "used_col src j v" "used_box src (box_of src i j) v"
          using used_of_cell[OF wfs uos ij(1,2), of v] vr by (simp_all add: v_def n_def)
        from a have "i = r \<or> j = c \<or> box_of src i j = box_of src r c"
          by (simp add: same_unit_def)
        then show False using nu us by auto
      qed
      then show ?thesis using new False old by (auto simp: has_note_def su)
    qed
  qed
  have "copied src (insert (i, j) D) d'"
    unfolding copied_def n_def[symmetric]
    using core' sz' cells nts by blast
  then show ?thesis using bi st by (auto simp: v_def)
qed

lemma copied_step_empty:
  assumes inv: "board_inv src" and cp: "copied src D d"
    and ij: "i < size_b src" "j < size_b src" and v: "cell src i j = 0"
  shows "copied src (insert (i, j) D)
           (d\<lparr>notes_b := (notes_b d)[i := (notes_b d ! i)
              [j := heatmap_copy (notes_b d ! i ! j) (notes_b src ! i ! j)]]\<rparr>)"
proof -
  define n where "n = size_b src"
  let ?ns = "(notes_b d)[i := (notes_b d ! i)[j := heatmap_copy (notes_b d ! i ! j) (notes_b src ! i ! j)]]"
  have wfs: "board_wf src" using inv by (simp add: board_inv_def board_core_def)
  have core: "board_core d" and sz: "size_b d = n" using cp by (simp_all add: copied_def n_def)
  have wfd: "board_wf d" using core by (simp add: board_core_def)
  have nwd: "notes_wf n (notes_b d)" using wfd by (simp add: board_wf_def sz)
  have nws: "notes_wf n (notes_b src)" using wfs by (simp add: board_wf_def n_def)
  have ij': "i < n" "j < n" using ij by (simp_all add: n_def)
  have hc: "heatmap_copy (notes_b d ! i ! j) (notes_b src ! i ! j) = notes_b src ! i ! j"
    by (rule heatmap_copy_eq[where n = n]) (use nwd nws ij' in \<open>simp_all add: notes_wf_def\<close>)
  have nth: "?ns ! r ! c = (if r = i \<and> c = j then notes_b src ! i ! j else notes_b d ! r ! c)"
    if "r < n" "c < n" for r c
    using that nwd ij' by (auto simp: hc notes_wf_def nth_list_update)
  have nw': "notes_wf n ?ns"
    unfolding notes_wf_def
  proof (intro conjI allI impI)
    show "length ?ns = n" using nwd by (simp add: notes_wf_def)
    fix r assume r: "r < n"
    then show "length (?ns ! r) = n" using nwd ij' by (auto simp: notes_wf_def nth_list_update)
    fix c assume c: "c < n"
    show "heatmap_wf n (?ns ! r ! c)"
      unfolding nth[OF r c] using nwd nws ij' r c by (simp add: notes_wf_def)
  qed
  have core': "board_core (d\<lparr>notes_b := ?ns\<rparr>)"
    by (rule board_core_notes_update[OF core]) (simp add: sz nw')
  show ?thesis
    unfolding copied_def n_def[symmetric]
  proof (intro conjI allI impI)
    show "board_core (d\<lparr>notes_b := ?ns\<rparr>)" by (rule core')
    show "size_b (d\<lparr>notes_b := ?ns\<rparr>) = n" by (simp add: sz)
  next
    fix r c assume rc: "r < n" "c < n"
    have "cell d r c = (if (r, c) \<in> D then cell src r c else 0)"
      using copied_cell[OF cp, of r c] rc by (simp add: n_def)
    then show "cell (d\<lparr>notes_b := ?ns\<rparr>) r c =
        (if (r, c) \<in> insert (i, j) D then cell src r c else 0)"
      using v by auto
  next
    fix r c assume rc: "r < n" "c < n" and mem: "(r, c) \<in> insert (i, j) D"
    show "notes_b (d\<lparr>notes_b := ?ns\<rparr>) ! r ! c = notes_b src ! r ! c"
    proof (cases "r = i \<and> c = j")
      case True
      then show ?thesis using nth[OF rc] by simp
    next
      case False
      then have "(r, c) \<in> D" using mem by auto
      then have "notes_b d ! r ! c = notes_b src ! r ! c"
        using copied_notes[OF cp, of r c] rc by (simp add: n_def)
      then show ?thesis using nth[OF rc] False by simp
    qed
  qed
qed

lemma board_copy_fill_copied:
  assumes inv: "board_inv src"
  shows "copied src D d \<Longrightarrow> distinct cells \<Longrightarrow> set cells \<inter> D = {} \<Longrightarrow>
         (\<forall>(i, j) \<in> set cells. i < size_b src \<and> j < size_b src) \<Longrightarrow>
         \<exists>d'. board_copy_fill src cells d = Some d' \<and> copied src (D \<union> set cells) d'"
proof (induction cells arbitrary: D d)
  case Nil
  then show ?case by simp
next
  case (Cons x cells)
  obtain i j where x: "x = (i, j)" by (cases x)
  have ij: "i < size_b src" "j < size_b src" "(i, j) \<notin> D"
    using Cons.prems x by auto
  have rest: "distinct cells" "set cells \<inter> insert (i, j) D = {}"
    "\<forall>(i, j) \<in> set cells. i < size_b src \<and> j < size_b src"
    using Cons.prems x by auto
  show ?case
  proof (cases "cell src i j = 0")
    case True
    let ?d = "d\<lparr>notes_b := (notes_b d)[i := (notes_b d ! i)
              [j := heatmap_copy (notes_b d ! i ! j) (notes_b src ! i ! j)]]\<rparr>"
    have "copied src (insert (i, j) D) ?d"
      by (rule copied_step_empty[OF inv Cons.prems(1) ij(1,2) True])
    from Cons.IH[OF this rest]
    obtain d' where "board_copy_fill src cells ?d = Some d'"
      "copied src (insert (i, j) D \<union> set cells) d'" by blast
    then show ?thesis using True by (simp add: x cell_def)
  next
    case False
    from copied_step_filled[OF inv Cons.prems(1) ij False]
    obtain d1 where d1: "board_insert d (i + 1) (j + 1) (cell src i j) = Some (0, d1)"
      "copied src (insert (i, j) D) d1" by blast
    from Cons.IH[OF d1(2) rest]
    obtain d' where "board_copy_fill src cells d1 = Some d'"
      "copied src (insert (i, j) D \<union> set cells) d'" by blast
    then show ?thesis using False d1(1) by (simp add: x cell_def)
  qed
qed

lemma count_cells_cong:
  assumes "size_b d = size_b b" "\<And>r c. r < size_b b \<Longrightarrow> c < size_b b \<Longrightarrow> cell d r c = cell b r c"
  shows "count_cells d P = count_cells b P"
proof -
  have "filter (\<lambda>(r, c). P (cell d r c)) (cells_of (size_b b)) =
        filter (\<lambda>(r, c). P (cell b r c)) (cells_of (size_b b))"
    by (rule filter_cong) (auto simp: assms(2))
  then show ?thesis by (simp add: count_cells_def assms(1))
qed

text \<open>Two boards with the same grid and the same notes that satisfy the invariants are equal.\<close>

lemma board_core_eqI:
  fixes d b :: board
  assumes cd: "board_core d" and cb: "board_core b" and sz: "size_b d = size_b b"
    and cells: "\<And>r c. r < size_b b \<Longrightarrow> c < size_b b \<Longrightarrow> cell d r c = cell b r c"
    and nts: "\<And>r c. r < size_b b \<Longrightarrow> c < size_b b \<Longrightarrow> notes_b d ! r ! c = notes_b b ! r ! c"
  shows "d = b"
proof -
  define n where "n = size_b b"
  have wfd: "board_wf d" and wfb: "board_wf b" and uod: "used_ok d" and uob: "used_ok b"
    and cod: "counts_ok d" and cob: "counts_ok b"
    using cd cb by (simp_all add: board_core_def)
  have szd: "size_b d = n" using sz by (simp add: n_def)
  have cells': "cell d r c = cell b r c" if "r < n" "c < n" for r c
    using cells that by (simp add: n_def)
  have bx: "box_of d r c = box_of b r c" for r c by (simp add: box_of_def sz)
  have "data d = data b"
  proof (rule nth_equalityI)
    show "length (data d) = length (data b)" using wfd wfb by (simp add: board_wf_def sz)
    fix r assume "r < length (data d)"
    then have r: "r < n" using wfd by (simp add: board_wf_def szd)
    show "data d ! r = data b ! r"
    proof (rule nth_equalityI)
      show "length (data d ! r) = length (data b ! r)"
        using wfd wfb r by (simp add: board_wf_def szd n_def)
      fix c assume "c < length (data d ! r)"
      then have "c < n" using wfd r by (simp add: board_wf_def szd)
      then show "data d ! r ! c = data b ! r ! c" using cells'[OF r] by (simp add: cell_def)
    qed
  qed
  moreover have "notes_b d = notes_b b"
  proof (rule nth_equalityI)
    show "length (notes_b d) = length (notes_b b)"
      using wfd wfb by (simp add: board_wf_def notes_wf_def sz)
    fix r assume "r < length (notes_b d)"
    then have r: "r < n" using wfd by (simp add: board_wf_def notes_wf_def szd)
    show "notes_b d ! r = notes_b b ! r"
    proof (rule nth_equalityI)
      show "length (notes_b d ! r) = length (notes_b b ! r)"
        using wfd wfb r by (simp add: board_wf_def notes_wf_def szd n_def)
      fix c assume "c < length (notes_b d ! r)"
      then have "c < n" using wfd r by (simp add: board_wf_def notes_wf_def szd)
      then show "notes_b d ! r ! c = notes_b b ! r ! c" using nts r by (simp add: n_def)
    qed
  qed
  moreover have "rows d = rows b"
  proof (rule nth_equalityI)
    show "length (rows d) = length (rows b)" using wfd wfb by (simp add: board_wf_def sz)
    fix i assume "i < length (rows d)"
    then have i: "i < n" using wfd by (simp add: board_wf_def szd)
    show "rows d ! i = rows b ! i"
    proof (rule heatmap_eqI[where n = n])
      show "heatmap_wf n (rows d ! i)" "heatmap_wf n (rows b ! i)"
        using wfd wfb i by (simp_all add: board_wf_def szd n_def)
      fix v assume v: "0 < v" "v \<le> n"
      have "used_row d i v = (\<exists>c<n. cell d i c = v)"
        using used_okD(1)[OF uod, of i v] i v by (simp add: szd)
      also have "\<dots> = (\<exists>c<n. cell b i c = v)" using cells'[OF i] by auto
      also have "\<dots> = used_row b i v"
        using used_okD(1)[OF uob, of i v] i v by (simp add: n_def)
      finally show "heatmap_check (rows d ! i) v = heatmap_check (rows b ! i) v"
        by (simp add: used_row_def)
    qed
  qed
  moreover have "cols d = cols b"
  proof (rule nth_equalityI)
    show "length (cols d) = length (cols b)" using wfd wfb by (simp add: board_wf_def sz)
    fix i assume "i < length (cols d)"
    then have i: "i < n" using wfd by (simp add: board_wf_def szd)
    show "cols d ! i = cols b ! i"
    proof (rule heatmap_eqI[where n = n])
      show "heatmap_wf n (cols d ! i)" "heatmap_wf n (cols b ! i)"
        using wfd wfb i by (simp_all add: board_wf_def szd n_def)
      fix v assume v: "0 < v" "v \<le> n"
      have "used_col d i v = (\<exists>r<n. cell d r i = v)"
        using used_okD(2)[OF uod, of i v] i v by (simp add: szd)
      also have "\<dots> = (\<exists>r<n. cell b r i = v)" using cells' i by auto
      also have "\<dots> = used_col b i v"
        using used_okD(2)[OF uob, of i v] i v by (simp add: n_def)
      finally show "heatmap_check (cols d ! i) v = heatmap_check (cols b ! i) v"
        by (simp add: used_col_def)
    qed
  qed
  moreover have "boxs d = boxs b"
  proof (rule nth_equalityI)
    show "length (boxs d) = length (boxs b)" using wfd wfb by (simp add: board_wf_def sz)
    fix i assume "i < length (boxs d)"
    then have i: "i < n" using wfd by (simp add: board_wf_def szd)
    show "boxs d ! i = boxs b ! i"
    proof (rule heatmap_eqI[where n = n])
      show "heatmap_wf n (boxs d ! i)" "heatmap_wf n (boxs b ! i)"
        using wfd wfb i by (simp_all add: board_wf_def szd n_def)
      fix v assume v: "0 < v" "v \<le> n"
      have "used_box d i v = (\<exists>r<n. \<exists>c<n. box_of b r c = i \<and> cell d r c = v)"
        using used_okD(3)[OF uod, of i v] i v by (simp add: szd bx)
      also have "\<dots> = (\<exists>r<n. \<exists>c<n. box_of b r c = i \<and> cell b r c = v)"
        by (simp add: cells' cong: conj_cong)
      also have "\<dots> = used_box b i v"
        using used_okD(3)[OF uob, of i v] i v by (simp add: n_def)
      finally show "heatmap_check (boxs d ! i) v = heatmap_check (boxs b ! i) v"
        by (simp add: used_box_def)
    qed
  qed
  moreover have "appearances d = appearances b"
  proof (rule nth_equalityI)
    show "length (appearances d) = length (appearances b)"
      using wfd wfb by (simp add: board_wf_def sz)
    fix i assume "i < length (appearances d)"
    then have i: "i < n" using wfd by (simp add: board_wf_def szd)
    have "appearances d ! (Suc i - 1) = int (count_cells d (\<lambda>x. x = Suc i))"
      using cod i unfolding counts_ok_def szd by (metis Suc_leI zero_less_Suc)
    moreover have "appearances b ! (Suc i - 1) = int (count_cells b (\<lambda>x. x = Suc i))"
      using cob i unfolding counts_ok_def n_def[symmetric] by (metis Suc_leI zero_less_Suc)
    moreover have "count_cells d (\<lambda>x. x = Suc i) = count_cells b (\<lambda>x. x = Suc i)"
      by (rule count_cells_cong[OF sz cells])
    ultimately show "appearances d ! i = appearances b ! i" by simp
  qed
  moreover have "total_appearances d = total_appearances b"
    using cod cob count_cells_cong[OF sz cells, of "\<lambda>x. x \<noteq> 0"] by (simp add: counts_ok_def)
  ultimately show ?thesis using sz by (intro board.equality) simp_all
qed

lemma board_copy_src:
  assumes inv: "board_inv src" and wf: "board_wf dest" and sz: "size_b dest = size_b src"
  shows "board_copy dest src = Some src"
proof -
  define n where "n = size_b src"
  define d0 where "d0 = fold (board_copy_clear n (heatmap_create n)) [0..<n]
                          (dest\<lparr>total_appearances := 0\<rparr>)"
  have "cleared dest (size_b dest) d0"
    unfolding d0_def n_def sz[symmetric] by (rule cleared_fold[OF wf]) simp
  from cleared_all[OF wf this]
  have core0: "board_core d0" and sz0: "size_b d0 = n" and cells0: "\<And>r c. r < n \<Longrightarrow> c < n \<Longrightarrow> cell d0 r c = 0"
    by (simp_all add: sz n_def)
  have cp0: "copied src {} d0"
    using core0 sz0 cells0 by (simp add: copied_def n_def)
  have "\<exists>d'. board_copy_fill src (cells_of n) d0 = Some d' \<and> copied src ({} \<union> set (cells_of n)) d'"
    by (rule board_copy_fill_copied[OF inv cp0]) (auto simp: n_def)
  then obtain d' where fill: "board_copy_fill src (cells_of n) d0 = Some d'"
    and cp: "copied src (set (cells_of n)) d'" by auto
  have "d' = src"
  proof (rule board_core_eqI)
    show "board_core d'" "size_b d' = size_b src" using cp by (simp_all add: copied_def)
    show "board_core src" using inv by (simp add: board_inv_def)
  next
    fix r c assume rc: "r < size_b src" "c < size_b src"
    then have mem: "(r, c) \<in> set (cells_of n)" by (simp add: n_def)
    show "cell d' r c = cell src r c" using copied_cell[OF cp rc] mem by simp
    show "notes_b d' ! r ! c = notes_b src ! r ! c" by (rule copied_notes[OF cp rc mem])
  qed
  then show ?thesis
    using fill sz
    by (simp add: board_copy_def board_get_size_def Let_def n_def[symmetric] d0_def[symmetric]
        cells_of_def)
qed

text \<open>
  A board of size 4 with twelve clues; the four empty cells can each take 1 or 2:
  \<^verbatim>\<open>
    . . 3 4
    3 4 1 2
    . . 4 3
    4 3 2 1
  \<close>
\<close>

definition board_d :: board where
  "board_d = the (main_board 4
     [(3, 1, 3), (4, 1, 4), (3, 2, 1), (4, 2, 2), (1, 2, 3), (2, 2, 4),
      (4, 3, 3), (3, 3, 4), (4, 4, 1), (3, 4, 2), (2, 4, 3), (1, 4, 4)])"

lemma board_d_some:
  "main_board 4
     [(3, 1, 3), (4, 1, 4), (3, 2, 1), (4, 2, 2), (1, 2, 3), (2, 2, 4),
      (4, 3, 3), (3, 3, 4), (4, 4, 1), (3, 4, 2), (2, 4, 3), (1, 4, 4)] = Some board_d"
proof -
  have "main_board 4
     [(3, 1, 3), (4, 1, 4), (3, 2, 1), (4, 2, 2), (1, 2, 3), (2, 2, 4),
      (4, 3, 3), (3, 3, 4), (4, 4, 1), (3, 4, 2), (2, 4, 3), (1, 4, 4)] \<noteq> None"
    by code_simp
  then show ?thesis by (simp add: board_d_def)
qed

lemma board_d_inv: "board_inv board_d"
  by (rule main_board_inv[OF board_d_some])


lemma board_inv_wf: "board_inv b \<Longrightarrow> board_wf b"
  by (simp add: board_inv_def board_core_def)



section \<open>Propagation changes the board by insertions only\<close>

inductive inserts_to :: "board \<Rightarrow> board \<Rightarrow> bool" where
  same: "inserts_to b b"
| more: "inserts_to b b1 \<Longrightarrow> board_insert b1 row col val = Some (st, b2) \<Longrightarrow> inserts_to b b2"

lemma inserts_to_refl [simp]: "inserts_to b b"
  by (rule inserts_to.intros(1))

lemma inserts_to_trans: "inserts_to b1 b2 \<Longrightarrow> inserts_to b b1 \<Longrightarrow> inserts_to b b2"
  by (induction rule: inserts_to.induct) (auto intro: inserts_to.intros)

lemma inserts_to_one: "board_insert b row col val = Some (st, b') \<Longrightarrow> inserts_to b b'"
  by (rule inserts_to.intros(2)[OF inserts_to.intros(1)])

text \<open>
  What a stretch of the propagation can do: go on after some insertions, or return 1
  after some insertions with an empty cell on the board.
\<close>

definition flow_ok :: "nat \<Rightarrow> board \<Rightarrow> flow \<Rightarrow> bool" where
  "flow_ok sz b fl =
     (case fl of
        Failed \<Rightarrow> True
      | Returned r b' \<Rightarrow> r = 1 \<and> inserts_to b b' \<and> (\<exists>i < sz. \<exists>j < sz. cell b' i j = 0)
      | Running b' \<Rightarrow> inserts_to b b')"

lemma flow_ok_Running [simp]: "flow_ok sz b (Running b') = inserts_to b b'"
  and flow_ok_Failed [simp]: "flow_ok sz b Failed"
  and flow_ok_Returned [simp]:
    "flow_ok sz b (Returned r b') = (r = 1 \<and> inserts_to b b' \<and> (\<exists>i < sz. \<exists>j < sz. cell b' i j = 0))"
  by (simp_all add: flow_ok_def)

lemma flow_ok_same: "flow_ok sz b (Running b)"
  by simp

lemma flow_ok_insert [simp]: "flow_ok sz b (insert_discard b row col val)"
  by (auto simp: insert_discard_def inserts_to_one split: option.splits)

lemma flow_ok_trans: "inserts_to b b1 \<Longrightarrow> flow_ok sz b1 fl \<Longrightarrow> flow_ok sz b fl"
  by (cases fl) (auto intro: inserts_to_trans)

lemma flow_ok_fold:
  assumes "\<And>x b'. x \<in> set xs \<Longrightarrow> flow_ok sz b' (f x b')"
  shows "flow_ok sz b (flow_fold f xs b)"
  using assms
proof (induction xs arbitrary: b)
  case Nil
  then show ?case by simp
next
  case (Cons x xs)
  have 1: "flow_ok sz b (f x b)" using Cons.prems by simp
  show ?case
  proof (cases "f x b")
    case (Running b1)
    then have "inserts_to b b1" using 1 by simp
    moreover have "flow_ok sz b1 (flow_fold f xs b1)" using Cons by simp
    ultimately show ?thesis using Running by (simp add: flow_ok_trans)
  qed (use 1 in simp_all)
qed

lemma value_scan_ok [simp]: "flow_ok sz b (value_scan b val js row col)"
  by (induction js arbitrary: row col) (simp_all add: Let_def)

lemma row_scan_ok [simp]: "flow_ok sz b (row_scan b i js col val)"
  by (induction js arbitrary: col val) (simp_all add: Let_def)

lemma col_scan_ok [simp]: "flow_ok sz b (col_scan b i js row val)"
  by (induction js arbitrary: row val) (simp_all add: Let_def)

lemma box_fill_row_ok [simp]: "flow_ok sz b (box_fill_row val i js b)"
  by (induction js) (simp_all split: option.splits)

lemma rule_value_ok [simp]: "flow_ok sz' b (rule_value sz i b)"
  by (simp add: rule_value_def)

lemma rule_row_ok [simp]: "flow_ok sz' b (rule_row sz i b)"
  by (simp add: rule_row_def)

lemma rule_col_ok [simp]: "flow_ok sz' b (rule_col sz i b)"
  by (simp add: rule_col_def)

lemma rule_box_ok [simp]: "flow_ok sz' b (rule_box sz i b)"
  by (simp add: rule_box_def Let_def flow_ok_fold)

lemma single_fill_ok [simp]: "flow_ok sz b (single_fill i j val b)"
  by (simp add: single_fill_def)

lemma single_cell_ok: "i < sz \<Longrightarrow> j < sz \<Longrightarrow> flow_ok sz b (single_cell sz i j b)"
  by (auto simp: single_cell_def flow_ok_fold cell_def)

lemma hidden_row_ok [simp]: "flow_ok sz' b (hidden_row sz val i b)"
  by (simp add: hidden_row_def split: prod.splits option.splits)

lemma hidden_col_ok [simp]: "flow_ok sz' b (hidden_col sz val i b)"
  by (simp add: hidden_col_def split: prod.splits option.splits)

lemma hidden_box_ok [simp]: "flow_ok sz' b (hidden_box sz val i b)"
  by (simp add: hidden_box_def Let_def split: prod.splits option.splits)

lemma hidden_unit_ok [simp]: "flow_ok sz' b (hidden_unit sz x b)"
proof (cases x)
  case (Pair val i)
  have "flow_ok sz' b (flow_fold (\<lambda>rule. rule sz val i) [hidden_row, hidden_col, hidden_box] b)"
    by (rule flow_ok_fold) auto
  then show ?thesis by (simp only: hidden_unit_def Pair prod.case)
qed

lemma solve_unit_ok: "i < sz \<Longrightarrow> flow_ok sz b (solve_unit sz i b)"
  unfolding solve_unit_def
proof (rule flow_ok_fold)
  fix x b'
  assume i: "i < sz" and "x \<in> set [rule_value sz i, rule_row sz i, rule_col sz i, rule_box sz i,
      flow_fold (single_cell sz i) [0..<sz],
      flow_fold (hidden_unit sz) (List.product [1..<sz + 1] [0..<sz])]"
  then consider "x = rule_value sz i" | "x = rule_row sz i" | "x = rule_col sz i"
    | "x = rule_box sz i" | "x = flow_fold (single_cell sz i) [0..<sz]"
    | "x = flow_fold (hidden_unit sz) (List.product [1..<sz + 1] [0..<sz])"
    by auto
  then show "flow_ok sz b' (x b')"
  proof cases
    case 5
    show ?thesis unfolding 5 by (rule flow_ok_fold) (simp add: single_cell_ok i)
  next
    case 6
    show ?thesis unfolding 6 by (rule flow_ok_fold) simp
  qed simp_all
qed

lemma solve_round_ok: "flow_ok sz b (solve_round sz b)"
  unfolding solve_round_def by (rule flow_ok_fold) (simp add: solve_unit_ok)

lemma solve_rounds_ok: "flow_ok sz b (solve_rounds sz b)"
proof (induction sz b rule: solve_rounds.induct)
  case (1 sz b)
  show ?case
  proof (cases "total_appearances b < int (sz * sz)")
    case False
    then show ?thesis by (simp add: solve_rounds.simps[of sz b])
  next
    case True
    have r: "flow_ok sz b (solve_round sz b)" by (rule solve_round_ok)
    show ?thesis
    proof (cases "solve_round sz b")
      case (Running b1)
      then have i: "inserts_to b b1" using r by simp
      show ?thesis
      proof (cases "total_appearances b < total_appearances b1")
        case t: True
        have "flow_ok sz b1 (solve_rounds sz b1)" using "1.IH"[OF True Running t] .
        then have "flow_ok sz b (solve_rounds sz b1)" using i by (rule flow_ok_trans[rotated])
        then show ?thesis using True Running t by (simp add: solve_rounds.simps[of sz b])
      next
        case False
        then show ?thesis using True Running i by (simp add: solve_rounds.simps[of sz b])
      qed
    qed (use r True in \<open>simp_all add: solve_rounds.simps[of sz b]\<close>)
  qed
qed

section \<open>What every step of \<open>board_solve\<close> keeps\<close>

definition grid_extends :: "board \<Rightarrow> board \<Rightarrow> bool" where
  "grid_extends b b' \<longleftrightarrow>
     (\<forall>r < size_b b. \<forall>c < size_b b. cell b r c \<noteq> 0 \<longrightarrow> cell b' r c = cell b r c)"

definition notes_le :: "board \<Rightarrow> board \<Rightarrow> bool" where
  "notes_le b' b \<longleftrightarrow>
     (\<forall>r < size_b b. \<forall>c < size_b b. \<forall>v. 0 < v \<and> v \<le> size_b b \<longrightarrow>
        has_note b' r c v \<longrightarrow> has_note b r c v)"

definition evolves :: "board \<Rightarrow> board \<Rightarrow> bool" where
  "evolves b b' \<longleftrightarrow>
     board_inv b' \<and> size_b b' = size_b b \<and> grid_extends b b' \<and> notes_le b' b \<and>
     total_appearances b \<le> total_appearances b'"

lemma evolves_refl: "board_inv b \<Longrightarrow> evolves b b"
  by (simp add: evolves_def grid_extends_def notes_le_def)

lemma evolves_trans:
  assumes "evolves b b1" "evolves b1 b2"
  shows "evolves b b2"
proof -
  have sz: "size_b b1 = size_b b" "size_b b2 = size_b b"
    using assms by (simp_all add: evolves_def)
  have inv1: "board_inv b1" using assms by (simp add: evolves_def)
  have g1: "grid_extends b b1" and g2: "grid_extends b1 b2"
    and n1: "notes_le b1 b" and n2: "notes_le b2 b1"
    using assms by (simp_all add: evolves_def)
  have "grid_extends b b2"
    unfolding grid_extends_def
  proof (intro allI impI)
    fix r c assume a: "r < size_b b" "c < size_b b" "cell b r c \<noteq> 0"
    then have 1: "cell b1 r c = cell b r c" using g1 by (simp add: grid_extends_def)
    then have "cell b2 r c = cell b1 r c" using g2 a by (simp add: grid_extends_def sz)
    then show "cell b2 r c = cell b r c" using 1 by simp
  qed
  moreover have "notes_le b2 b"
    using n1 n2 by (simp add: notes_le_def sz)
  ultimately show ?thesis using assms by (simp add: evolves_def)
qed

lemma board_insert_evolves:
  assumes inv: "board_inv b" and ins: "board_insert b row col val = Some (st, b')"
  shows "evolves b b'"
proof (cases "st = 0")
  case False
  then have "b' = b" using board_insert_cases[OF ins] by auto
  then show ?thesis using inv by (simp add: evolves_refl)
next
  case True
  have wf: "board_wf b" using inv by (rule board_inv_wf)
  have i: "inserted b (row - 1) (col - 1) val b'"
    using board_insert_inserted[OF wf] ins True by simp
  have free: "cell b (row - 1) (col - 1) = 0" using board_insert_cases[OF ins] True by simp
  have "grid_extends b b'"
    unfolding grid_extends_def
  proof (intro allI impI)
    fix r c assume a: "r < size_b b" "c < size_b b" "cell b r c \<noteq> 0"
    then have "\<not> (r = row - 1 \<and> c = col - 1)" using free by auto
    then show "cell b' r c = cell b r c" using inserted_cell[OF i a(1,2)] by auto
  qed
  moreover have "notes_le b' b"
    unfolding notes_le_def using inserted_note[OF i] by simp
  ultimately show ?thesis
    using board_insert_inv[OF inv ins] inserted_size[OF i] inserted_total[OF i]
    by (simp add: evolves_def)
qed

lemma inserts_to_evolves: "inserts_to b b' \<Longrightarrow> board_inv b \<Longrightarrow> evolves b b'"
proof (induction rule: inserts_to.induct)
  case (same b)
  then show ?case by (rule evolves_refl)
next
  case (more b b1 row col val st b2)
  then have 1: "evolves b b1" by simp
  then have "board_inv b1" by (simp add: evolves_def)
  from board_insert_evolves[OF this more.hyps(2)] 1 show ?case by (rule evolves_trans[rotated])
qed

text \<open>Turning a note off.\<close>

lemma notes_off_evolves:
  assumes inv: "board_inv b" and rc: "row < size_b b" "col < size_b b"
    and v: "0 < val" "val \<le> size_b b"
  shows "evolves b (b\<lparr>notes_b := notes_off row col val (notes_b b)\<rparr>)"
proof -
  define n where "n = size_b b"
  let ?b = "b\<lparr>notes_b := notes_off row col val (notes_b b)\<rparr>"
  have wf: "board_wf b" using inv by (rule board_inv_wf)
  have nw: "notes_wf n (notes_b b)" using wf by (simp add: board_wf_def n_def)
  have nw': "notes_wf n (notes_off row col val (notes_b b))"
    by (rule notes_off_wf[OF nw]) (use rc v in \<open>simp_all add: n_def\<close>)
  have core: "board_core ?b"
    by (rule board_core_notes_update) (use inv nw' in \<open>simp_all add: board_inv_def n_def\<close>)
  have nt: "has_note ?b r c u = (has_note b r c u \<and> \<not> (r = row \<and> c = col \<and> u = val))"
    if "r < n" "c < n" "0 < u" "u \<le> n" for r c u
    using notes_off_check[OF nw, of row col val r c u] that rc v
    by (simp add: has_note_def n_def)
  have c: "cell ?b = cell b" by (intro ext) (simp add: cell_def)
  have u: "used_row ?b = used_row b" "used_col ?b = used_col b" "used_box ?b = used_box b"
    by (intro ext, simp add: used_row_def used_col_def used_box_def)+
  have k: "box_of ?b = box_of b" by (intro ext) (simp add: box_of_def)
  have "notes_sound ?b"
    unfolding notes_sound_def c u k
  proof (intro allI impI)
    fix r c v' assume a: "r < size_b ?b" "c < size_b ?b" "0 < v' \<and> v' \<le> size_b ?b \<and> has_note ?b r c v'"
    then have "has_note b r c v'" using nt[of r c v'] by (simp add: n_def)
    then show "cell b r c = 0 \<and> \<not> used_row b r v' \<and> \<not> used_col b c v' \<and>
        \<not> used_box b (box_of b r c) v'"
      using inv a unfolding board_inv_def notes_sound_def by auto
  qed
  moreover have "notes_le ?b b"
    unfolding notes_le_def using nt by (simp add: n_def)
  moreover have "grid_extends b ?b" by (simp add: grid_extends_def c)
  ultimately show ?thesis using core by (simp add: evolves_def board_inv_def)
qed

text \<open>A board with an empty cell is not full, a board without one is.\<close>

lemma filter_length_less:
  "x \<in> set xs \<Longrightarrow> \<not> P x \<Longrightarrow> length (filter P xs) < length xs"
  by (metis filter_id_conv length_filter_le le_neq_implies_less length_filter_less)

lemma cells_of_length [simp]: "length (cells_of n) = n * n"
  by (simp add: cells_of_def)

lemma total_le:
  assumes "board_inv b"
  shows "total_appearances b \<le> int (size_b b * size_b b)"
proof -
  have "total_appearances b = int (count_cells b (\<lambda>x. x \<noteq> 0))"
    using assms by (simp add: board_inv_def board_core_def counts_ok_def)
  moreover have "count_cells b (\<lambda>x. x \<noteq> 0) \<le> length (cells_of (size_b b))"
    unfolding count_cells_def by (rule length_filter_le)
  ultimately show ?thesis by (simp flip: of_nat_mult)
qed

lemma empty_cell_total:
  assumes "board_inv b" "i < size_b b" "j < size_b b" "cell b i j = 0"
  shows "total_appearances b < int (size_b b * size_b b)"
proof -
  have "total_appearances b = int (count_cells b (\<lambda>x. x \<noteq> 0))"
    using assms(1) by (simp add: board_inv_def board_core_def counts_ok_def)
  moreover have "count_cells b (\<lambda>x. x \<noteq> 0) < length (cells_of (size_b b))"
    unfolding count_cells_def
    by (rule filter_length_less[where x = "(i, j)"]) (use assms in simp_all)
  ultimately show ?thesis by (simp flip: of_nat_mult)
qed

lemma full_total:
  assumes "board_inv b" "total_appearances b \<ge> int (size_b b * size_b b)"
    "r < size_b b" "c < size_b b"
  shows "cell b r c \<noteq> 0"
  using empty_cell_total[OF assms(1,3,4)] assms(2) by auto

section \<open>Deriving the notes keeps the invariants\<close>

definition added :: "nat \<Rightarrow> (nat \<times> nat \<times> nat) set \<Rightarrow> heatmap list list \<Rightarrow> heatmap list list \<Rightarrow> bool" where
  "added n S ns ns' \<longleftrightarrow>
     notes_wf n ns' \<and>
     (\<forall>r<n. \<forall>c<n. \<forall>u. 0 < u \<and> u \<le> n \<longrightarrow>
        heatmap_check (ns' ! r ! c) u = (heatmap_check (ns ! r ! c) u \<or> (r, c, u) \<in> S))"

lemma notes_on_wf:
  assumes "notes_wf n ns" "i < n" "j < n" "0 < v" "v \<le> n"
  shows "notes_wf n (notes_on i j v ns)"
  using assms unfolding notes_wf_def notes_on_def
  by (auto simp: nth_list_update heatmap_wf_on)

lemma notes_on_check:
  assumes "notes_wf n ns" "i < n" "j < n" "0 < v" "v \<le> n" "r < n" "c < n" "0 < u" "u \<le> n"
  shows "heatmap_check (notes_on i j v ns ! r ! c) u =
         (heatmap_check (ns ! r ! c) u \<or> (r = i \<and> c = j \<and> u = v))"
  using assms unfolding notes_wf_def notes_on_def
  by (auto simp: nth_list_update heatmap_check_on[where n = n])

lemma added_on:
  assumes "added n S ns ns1" "i < n" "j < n" "0 < v" "v \<le> n"
  shows "added n (insert (i, j, v) S) ns (notes_on i j v ns1)"
  using assms unfolding added_def
  by (auto simp: notes_on_wf notes_on_check[where n = n])

lemma fold_added:
  assumes "\<And>x S ns1. x \<in> set xs \<Longrightarrow> added n S ns ns1 \<Longrightarrow> added n (S \<union> T x) ns (f x ns1)"
    and "added n S ns ns1"
  shows "added n (S \<union> (\<Union>x\<in>set xs. T x)) ns (fold f xs ns1)"
  using assms
proof (induction xs arbitrary: S ns1)
  case Nil
  then show ?case by simp
next
  case (Cons a xs)
  have 1: "added n (S \<union> T a) ns (f a ns1)"
    using Cons.prems by simp
  have "added n ((S \<union> T a) \<union> (\<Union>x\<in>set xs. T x)) ns (fold f xs (f a ns1))"
    by (rule Cons.IH) (use Cons.prems 1 in auto)
  then show ?case by (simp add: Un_assoc)
qed

text \<open>The values \<open>board_make_notes\<close> turns on at a cell.\<close>

definition candidate :: "board \<Rightarrow> nat \<Rightarrow> nat \<Rightarrow> nat \<Rightarrow> bool" where
  "candidate b r c v \<longleftrightarrow>
     cell b r c = 0 \<and> \<not> used_row b r v \<and> \<not> used_col b c v \<and> \<not> used_box b (box_of b r c) v"

lemma make_notes_step_added:
  assumes "added n S ns ns1" "i < n" "j < n" "0 < v" "v \<le> n"
  shows "added n (S \<union> (if candidate b i j v then {(i, j, v)} else {})) ns
           (make_notes_step b i j v ns1)"
proof (cases "candidate b i j v")
  case True
  then have "make_notes_step b i j v ns1 = notes_on i j v ns1"
    by (simp add: make_notes_step_def candidate_def cell_def used_row_def used_col_def
        used_box_def box_of_def board_get_size_def)
  then show ?thesis using added_on[OF assms] True by simp
next
  case False
  then have "make_notes_step b i j v ns1 = ns1"
    by (auto simp: make_notes_step_def candidate_def cell_def used_row_def used_col_def
        used_box_def box_of_def board_get_size_def)
  then show ?thesis using assms(1) False by simp
qed

lemma make_notes_added:
  assumes nw: "notes_wf n (notes_b b)" and sz: "size_b b = n"
  shows "added n ({} \<union> (\<Union>i\<in>set [0..<n]. {} \<union> (\<Union>j\<in>set [0..<n].
            {} \<union> (\<Union>v\<in>set [1..<n + 1]. if candidate b i j v then {(i, j, v)} else {}))))
           (notes_b b) (notes_b (board_make_notes b))"
proof -
  have a0: "added n {} (notes_b b) (notes_b b)" using nw by (simp add: added_def)
  have "added n ({} \<union> (\<Union>i\<in>set [0..<n]. {} \<union> (\<Union>j\<in>set [0..<n].
            {} \<union> (\<Union>v\<in>set [1..<n + 1]. if candidate b i j v then {(i, j, v)} else {}))))
           (notes_b b)
           (fold (\<lambda>i. fold (\<lambda>j. fold (make_notes_step b i j) [1..<n + 1]) [0..<n]) [0..<n]
              (notes_b b))"
  proof (rule fold_added[OF _ a0])
    fix i S ns1 assume i: "i \<in> set [0..<n]" and a1: "added n S (notes_b b) ns1"
    have "added n (S \<union> ({} \<union> (\<Union>j\<in>set [0..<n].
            {} \<union> (\<Union>v\<in>set [1..<n + 1]. if candidate b i j v then {(i, j, v)} else {}))))
           (notes_b b) (fold (\<lambda>j. fold (make_notes_step b i j) [1..<n + 1]) [0..<n] ns1)"
      unfolding Un_empty_left
    proof (rule fold_added[OF _ a1])
      fix j S' ns2 assume j: "j \<in> set [0..<n]" and a2: "added n S' (notes_b b) ns2"
      show "added n (S' \<union> (\<Union>v\<in>set [1..<n + 1]. if candidate b i j v then {(i, j, v)} else {}))
           (notes_b b) (fold (make_notes_step b i j) [1..<n + 1] ns2)"
      proof (rule fold_added[OF _ a2])
        fix v S'' ns3 assume "v \<in> set [1..<n + 1]" "added n S'' (notes_b b) ns3"
        then show "added n (S'' \<union> (if candidate b i j v then {(i, j, v)} else {})) (notes_b b)
           (make_notes_step b i j v ns3)"
          using i j by (intro make_notes_step_added) auto
      qed
    qed
    then show "added n (S \<union> ({} \<union> (\<Union>j\<in>set [0..<n].
            {} \<union> (\<Union>v\<in>set [1..<n + 1]. if candidate b i j v then {(i, j, v)} else {}))))
           (notes_b b) (fold (\<lambda>j. fold (make_notes_step b i j) [1..<n + 1]) [0..<n] ns1)" .
  qed
  then show ?thesis by (simp add: board_make_notes_def board_get_size_def sz Let_def)
qed

lemma make_notes_note:
  assumes wf: "board_wf b" and rc: "r < size_b b" "c < size_b b" and v: "0 < v" "v \<le> size_b b"
  shows "has_note (board_make_notes b) r c v = (has_note b r c v \<or> candidate b r c v)"
proof -
  define n where "n = size_b b"
  have nw: "notes_wf n (notes_b b)" using wf by (simp add: board_wf_def n_def)
  note a = make_notes_added[OF nw n_def[symmetric]]
  have "heatmap_check (notes_b (board_make_notes b) ! r ! c) v =
      (heatmap_check (notes_b b ! r ! c) v \<or>
       (r, c, v) \<in> {} \<union> (\<Union>i\<in>set [0..<n]. {} \<union> (\<Union>j\<in>set [0..<n].
            {} \<union> (\<Union>v\<in>set [1..<n + 1]. if candidate b i j v then {(i, j, v)} else {}))))"
    using a rc v unfolding added_def n_def[symmetric] by blast
  also have "(r, c, v) \<in> {} \<union> (\<Union>i\<in>set [0..<n]. {} \<union> (\<Union>j\<in>set [0..<n].
            {} \<union> (\<Union>v\<in>set [1..<n + 1]. if candidate b i j v then {(i, j, v)} else {})))
      \<longleftrightarrow> candidate b r c v"
    using rc v by (auto simp: n_def split: if_splits)
  finally show ?thesis by (simp add: has_note_def)
qed

lemma make_notes_fields [simp]:
  "size_b (board_make_notes b) = size_b b" "data (board_make_notes b) = data b"
  "rows (board_make_notes b) = rows b" "cols (board_make_notes b) = cols b"
  "boxs (board_make_notes b) = boxs b" "appearances (board_make_notes b) = appearances b"
  "total_appearances (board_make_notes b) = total_appearances b"
  by (simp_all add: board_make_notes_def Let_def)

lemma make_notes_evolves:
  assumes inv: "board_inv b"
  shows "board_inv (board_make_notes b)" and "notes_le b (board_make_notes b)"
    and "grid_extends b (board_make_notes b)"
proof -
  define n where "n = size_b b"
  let ?b = "board_make_notes b"
  have wf: "board_wf b" using inv by (rule board_inv_wf)
  have nw: "notes_wf n (notes_b b)" using wf by (simp add: board_wf_def n_def)
  have nw': "notes_wf n (notes_b ?b)"
    using make_notes_added[OF nw n_def[symmetric]] by (simp add: added_def)
  have eq: "?b = b\<lparr>notes_b := notes_b ?b\<rparr>" by (simp add: board_make_notes_def Let_def)
  have core: "board_core ?b"
    by (subst eq, rule board_core_notes_update) (use inv nw' in \<open>simp_all add: board_inv_def n_def\<close>)
  have c: "cell ?b = cell b" by (intro ext) (simp add: cell_def)
  have u: "used_row ?b = used_row b" "used_col ?b = used_col b" "used_box ?b = used_box b"
    by (intro ext, simp add: used_row_def used_col_def used_box_def)+
  have k: "box_of ?b = box_of b" by (intro ext) (simp add: box_of_def)
  have "notes_sound ?b"
    unfolding notes_sound_def c u k make_notes_fields
  proof (intro allI impI)
    fix r c v assume a: "r < size_b b" "c < size_b b" "0 < v \<and> v \<le> size_b b \<and> has_note ?b r c v"
    then have "has_note b r c v \<or> candidate b r c v"
      using make_notes_note[OF wf a(1,2), of v] by simp
    then show "cell b r c = 0 \<and> \<not> used_row b r v \<and> \<not> used_col b c v \<and>
        \<not> used_box b (box_of b r c) v"
      using inv a unfolding board_inv_def notes_sound_def candidate_def by auto
  qed
  then show "board_inv ?b" using core by (simp add: board_inv_def)
  show "notes_le b ?b"
    unfolding notes_le_def make_notes_fields using make_notes_note[OF wf] by simp
  show "grid_extends b ?b" by (simp add: grid_extends_def c)
qed

section \<open>The result of \<open>board_solve\<close>\<close>

lemma first_note_mem: "first_note h ks = Some k \<Longrightarrow> k \<in> set ks \<and> heatmap_check h k"
  by (induction ks) (auto split: if_splits)

lemma guess_scan_done:
  assumes "guess_scan sz ts nb = Scan_done nb' g" "\<forall>(np, i, j) \<in> set ts. i < sz \<and> j < sz"
  shows "(g = None \<and> nb' = nb) \<or>
         (\<exists>i j k st. g = Some (i, j, k) \<and> i < sz \<and> j < sz \<and> 0 < k \<and> k \<le> sz \<and>
            has_note nb i j k \<and> board_insert nb (i + 1) (j + 1) k = Some (st, nb'))"
  using assms
proof (induction ts)
  case Nil
  then show ?case by simp
next
  case (Cons t ts)
  obtain np i j where t: "t = (np, i, j)" by (cases t)
  have ij: "i < sz" "j < sz" using Cons.prems(2) t by auto
  have rest: "\<forall>(np, i, j) \<in> set ts. i < sz \<and> j < sz" using Cons.prems(2) by simp
  show ?case
  proof (cases "count (notes_b nb ! i ! j) = int np")
    case True
    show ?thesis
    proof (cases "first_note (notes_b nb ! i ! j) [1..<sz + 1]")
      case None
      then have "guess_scan sz ts nb = Scan_done nb' g" using Cons.prems(1) True t by simp
      then show ?thesis using Cons.IH rest by simp
    next
      case (Some k)
      then have k: "0 < k" "k \<le> sz" "has_note nb i j k"
        using first_note_mem[OF Some] by (auto simp: has_note_def)
      from Cons.prems(1) True Some t
      obtain st where "board_insert nb (i + 1) (j + 1) k = Some (st, nb')" "g = Some (i, j, k)"
        by (auto split: option.splits)
      then show ?thesis using ij k by blast
    qed
  next
    case False
    then have "guess_scan sz ts nb = Scan_done nb' g"
      using Cons.prems(1) t by (auto split: if_splits)
    then show ?thesis using Cons.IH rest by simp
  qed
qed

lemma guess_order_range: "\<forall>(np, i, j) \<in> set (guess_order sz). i < sz \<and> j < sz"
  by (auto simp: guess_order_def)

lemma add_runs_Ret:
  "add_runs k out = Ret r b m \<Longrightarrow> \<exists>m0. out = Ret r b m0 \<and> m = k + m0"
  by (cases out) auto

definition solve_post :: "board \<Rightarrow> int \<Rightarrow> board \<Rightarrow> bool" where
  "solve_post b r b' \<longleftrightarrow>
     evolves b b' \<and>
     (r = 0 \<and> total_appearances b' \<ge> int (size_b b * size_b b) \<or>
      r = 1 \<and> total_appearances b' < int (size_b b * size_b b))"

lemma grid_extends_trans:
  assumes "grid_extends b b1" "grid_extends b1 b2" "size_b b1 = size_b b"
  shows "grid_extends b b2"
  unfolding grid_extends_def
proof (intro allI impI)
  fix r c assume a: "r < size_b b" "c < size_b b" "cell b r c \<noteq> 0"
  then have 1: "cell b1 r c = cell b r c" using assms(1) by (simp add: grid_extends_def)
  then have "cell b2 r c = cell b1 r c" using assms(2,3) a by (simp add: grid_extends_def)
  then show "cell b2 r c = cell b r c" using 1 by simp
qed

lemma full_no_notes:
  assumes "board_inv b" "total_appearances b \<ge> int (size_b b * size_b b)"
    and "size_b b = size_b b0"
  shows "notes_le b b0"
  unfolding notes_le_def
proof (intro allI impI)
  fix r c v assume a: "r < size_b b0" "c < size_b b0" "0 < v \<and> v \<le> size_b b0" "has_note b r c v"
  have "cell b r c \<noteq> 0" using full_total[OF assms(1,2)] a assms(3) by simp
  moreover have "cell b r c = 0"
    using assms(1,3) a unfolding board_inv_def notes_sound_def by auto
  ultimately show "has_note b0 r c v" by simp
qed

lemma solve_post_both:
  "(\<forall>b n r b' k. board_inv b \<longrightarrow> board_solve f b n = Ret r b' k \<longrightarrow>
       solve_post (board_make_notes b) r b' \<and> 1 \<le> k) \<and>
   (\<forall>sz b nb n r b' k. board_inv b \<longrightarrow> board_inv nb \<longrightarrow> size_b nb = size_b b \<longrightarrow>
       sz = size_b b \<longrightarrow> total_appearances b < int (sz * sz) \<longrightarrow>
       guess_loop f sz b nb n = Ret r b' k \<longrightarrow> solve_post b r b')"
proof (induction f)
  case 0
  show ?case by simp
next
  case (Suc f)
  have IHs: "solve_post (board_make_notes b) r b' \<and> 1 \<le> k"
    if "board_inv b" "board_solve f b n = Ret r b' k" for b n r b' k
    using Suc that by blast
  have IHl: "solve_post b r b'"
    if "board_inv b" "board_inv nb" "size_b nb = size_b b"
      "total_appearances b < int (size_b b * size_b b)"
      "guess_loop f (size_b b) b nb n = Ret r b' k" for b nb n r b' k
    using Suc that by blast
  have loop: "solve_post b r b'"
    if inv: "board_inv b" and invn: "board_inv nb" and szn: "size_b nb = size_b b"
      and tot: "total_appearances b < int (size_b b * size_b b)"
      and run: "guess_loop (Suc f) (size_b b) b nb n = Ret r b' k" for b nb n r b' k
  proof -
    define sz where "sz = size_b b"
    have cp: "board_copy nb b = Some b"
      by (rule board_copy_src[OF inv board_inv_wf[OF invn] szn])
    show ?thesis
    proof (cases "guess_scan sz (guess_order sz) b")
      case Scan_return
      then have "r = 1" "b' = b" using run cp by (simp_all add: sz_def)
      then show ?thesis using inv tot by (simp add: solve_post_def evolves_refl)
    next
      case Scan_failed
      then show ?thesis using run cp by (simp add: sz_def)
    next
      case (Scan_done nb' g)
      from guess_scan_done[OF Scan_done guess_order_range]
      have i2: "inserts_to b nb'" by (auto intro: inserts_to_one)
      have e1: "evolves b nb'" by (rule inserts_to_evolves[OF i2 inv])
      have inv1: "board_inv nb'" and sz1: "size_b nb' = sz"
        using e1 by (simp_all add: evolves_def sz_def)
      show ?thesis
      proof (cases "board_solve f nb' (n + 1)")
        case Out_of_fuel
        then show ?thesis using run cp Scan_done by (simp add: sz_def)
      next
        case Abort
        then show ?thesis using run cp Scan_done by (simp add: sz_def)
      next
        case (Ret gr nb'' k0)
        from IHs[OF inv1 Ret] have p: "solve_post (board_make_notes nb') gr nb''" by simp
        then have e2: "evolves (board_make_notes nb') nb''" by (simp add: solve_post_def)
        have inv2: "board_inv nb''" and sz2: "size_b nb'' = sz"
          using e2 sz1 by (simp_all add: evolves_def)
        consider "gr = 0" | "gr = 1" | "gr \<noteq> 0" "gr \<noteq> 1" by blast
        then show ?thesis
        proof cases
          case 1
          have full: "total_appearances nb'' \<ge> int (sz * sz)"
            using p 1 sz1 by (simp add: solve_post_def)
          have cb: "board_copy b nb'' = Some nb''"
            by (rule board_copy_src[OF inv2 board_inv_wf[OF inv]]) (simp add: sz2 sz_def)
          have res: "r = 0" "b' = nb''" using run cp Scan_done Ret 1 cb by (simp_all add: sz_def)
          have g1: "grid_extends b nb'" using e1 by (simp add: evolves_def)
          have g2: "grid_extends nb' (board_make_notes nb')"
            by (rule make_notes_evolves(3)[OF inv1])
          have g3: "grid_extends (board_make_notes nb') nb''" using e2 by (simp add: evolves_def)
          have "grid_extends nb' nb''"
            by (rule grid_extends_trans[OF g2 g3]) simp
          then have "grid_extends b nb''"
            by (rule grid_extends_trans[OF g1]) (simp add: sz1 sz_def)
          moreover have "notes_le nb'' b"
            by (rule full_no_notes[OF inv2]) (use full sz2 in \<open>simp_all add: sz_def\<close>)
          ultimately have "evolves b nb''"
            using inv2 sz2 full tot by (simp add: evolves_def sz_def)
          then show ?thesis using res full by (simp add: solve_post_def sz_def)
        next
          case 2
          show ?thesis
          proof (cases g)
            case None
            then show ?thesis using run cp Scan_done Ret 2 by (simp add: sz_def)
          next
            case (Some t)
            obtain row col val where t: "t = (row, col, val)" by (cases t)
            from guess_scan_done[OF Scan_done guess_order_range] Some t
            have rng: "row < sz" "col < sz" "0 < val" "val \<le> sz" by auto
            define b2 where "b2 = b\<lparr>notes_b := notes_off row col val (notes_b b)\<rparr>"
            have e3: "evolves b b2"
              unfolding b2_def by (rule notes_off_evolves[OF inv]) (use rng in \<open>simp_all add: sz_def\<close>)
            have inv3: "board_inv b2" and sz3: "size_b b2 = sz"
              using e3 by (simp_all add: evolves_def sz_def)
            have tot3: "total_appearances b2 < int (size_b b2 * size_b b2)"
              using tot by (simp add: b2_def)
            have "add_runs k0 (guess_loop f sz b2 nb'' n) = Ret r b' k"
              using run cp Scan_done Ret 2 Some t by (simp add: sz_def b2_def)
            then obtain k1 where "guess_loop f (size_b b2) b2 nb'' n = Ret r b' k1"
              using add_runs_Ret sz3 by blast
            from IHl[OF inv3 inv2 _ tot3 this]
            have p3: "solve_post b2 r b'" by (simp add: sz2 sz3)
            then have "evolves b b'" using e3 by (auto simp: solve_post_def intro: evolves_trans)
            then show ?thesis using p3 sz3 by (simp add: solve_post_def sz_def)
          qed
        next
          case 3
          then show ?thesis using run cp Scan_done Ret by (simp add: sz_def)
        qed
      qed
    qed
  qed
  have solve: "solve_post (board_make_notes b) r b' \<and> 1 \<le> k"
    if inv: "board_inv b" and run: "board_solve (Suc f) b n = Ret r b' k" for b n r b' k
  proof -
    define sz where "sz = size_b b"
    define b1 where "b1 = board_make_notes b"
    have inv1: "board_inv b1" unfolding b1_def by (rule make_notes_evolves(1)[OF inv])
    have sz1: "size_b b1 = sz" by (simp add: b1_def sz_def)
    have ok: "flow_ok sz b1 (solve_rounds sz b1)" by (rule solve_rounds_ok)
    show ?thesis
    proof (cases "solve_rounds sz b1")
      case Failed
      then show ?thesis using run by (simp add: board_get_size_def sz_def b1_def)
    next
      case (Returned r0 b2)
      then have res: "r = r0" "b' = b2" "k = 1"
        using run by (simp_all add: board_get_size_def sz_def b1_def)
      from ok Returned obtain i j where r0: "r0 = 1" and i2: "inserts_to b1 b2"
        and e: "i < sz" "j < sz" "cell b2 i j = 0" by auto
      have e2: "evolves b1 b2" by (rule inserts_to_evolves[OF i2 inv1])
      then have "board_inv b2" "size_b b2 = sz" using sz1 by (simp_all add: evolves_def)
      then have "total_appearances b2 < int (sz * sz)"
        using empty_cell_total[of b2 i j] e by simp
      then show ?thesis using res r0 e2 sz1 by (simp add: solve_post_def b1_def[symmetric])
    next
      case (Running b2)
      then have i2: "inserts_to b1 b2" using ok by simp
      have e2: "evolves b1 b2" by (rule inserts_to_evolves[OF i2 inv1])
      then have inv2: "board_inv b2" and sz2: "size_b b2 = sz"
        using sz1 by (simp_all add: evolves_def)
      show ?thesis
      proof (cases "total_appearances b2 \<ge> int (sz * sz)")
        case True
        then have "r = 0" "b' = b2" "k = 1"
          using run Running by (simp_all add: board_get_size_def sz_def b1_def)
        then show ?thesis using e2 True sz1 by (simp add: solve_post_def b1_def[symmetric])
      next
        case False
        show ?thesis
        proof (cases "board_create sz")
          case None
          then show ?thesis
            using run Running False by (simp add: board_get_size_def sz_def b1_def)
        next
          case (Some nb)
          have invn: "board_inv nb" by (rule board_create_inv[OF Some])
          have szn: "size_b nb = size_b b2"
            using Some sz2 by (auto simp: board_create_def split: if_splits)
          have "add_runs 1 (guess_loop f sz b2 nb n) = Ret r b' k"
            using run Running False Some by (simp add: board_get_size_def sz_def b1_def)
          then obtain k0 where g: "guess_loop f (size_b b2) b2 nb n = Ret r b' k0" and k: "k = 1 + k0"
            using add_runs_Ret sz2 by blast
          have "total_appearances b2 < int (size_b b2 * size_b b2)" using False sz2 by simp
          from IHl[OF inv2 invn szn this g]
          have p: "solve_post b2 r b'" .
          then have "evolves b1 b'" using e2 by (auto simp: solve_post_def intro: evolves_trans)
          then show ?thesis
            using p k sz1 sz2 by (simp add: solve_post_def b1_def[symmetric])
        qed
      qed
    qed
  qed
  show ?case
  proof (intro conjI allI impI)
    fix b n r b' k assume "board_inv b" "board_solve (Suc f) b n = Ret r b' k"
    then show "solve_post (board_make_notes b) r b'" "1 \<le> k" using solve by blast+
  next
    fix sz b nb n r b' k
    assume "board_inv b" "board_inv nb" "size_b nb = size_b b" "sz = size_b b"
      "total_appearances b < int (sz * sz)" "guess_loop (Suc f) sz b nb n = Ret r b' k"
    then show "solve_post b r b'" using loop[of b nb n r b' k] by simp
  qed
qed

section \<open>A full board is a solved board\<close>

text \<open>A list that holds each of the values 1 to \<open>n\<close> once and nothing else.\<close>

definition is_perm :: "nat \<Rightarrow> nat list \<Rightarrow> bool" where
  "is_perm n xs \<longleftrightarrow> distinct xs \<and> set xs = {1..n}"

definition row_values :: "board \<Rightarrow> nat \<Rightarrow> nat list" where
  "row_values b r = map (\<lambda>c. cell b r c) [0..<size_b b]"

definition col_values :: "board \<Rightarrow> nat \<Rightarrow> nat list" where
  "col_values b c = map (\<lambda>r. cell b r c) [0..<size_b b]"

text \<open>The cells of box \<open>k\<close>, as \<open>board_solve\<close> and \<open>board_insert\<close> enumerate them.\<close>

definition box_cells :: "nat \<Rightarrow> nat \<Rightarrow> (nat \<times> nat) list" where
  "box_cells sz k =
     (let root = int_sqrt sz; box_row = root * (k div root); box_col = root * (k mod root)
      in List.product [box_row..<box_row + root] [box_col..<box_col + root])"

definition box_values :: "board \<Rightarrow> nat \<Rightarrow> nat list" where
  "box_values b k = map (\<lambda>(r, c). cell b r c) (box_cells (size_b b) k)"

definition board_solved :: "board \<Rightarrow> bool" where
  "board_solved b \<longleftrightarrow>
     total_appearances b = int (size_b b * size_b b) \<and>
     (\<forall>r < size_b b. \<forall>c < size_b b. cell b r c \<noteq> 0) \<and>
     (\<forall>i < size_b b. is_perm (size_b b) (row_values b i) \<and>
        is_perm (size_b b) (col_values b i) \<and> is_perm (size_b b) (box_values b i))"

lemma unit_perm:
  assumes inv: "board_inv b"
    and full: "\<And>r c. r < size_b b \<Longrightarrow> c < size_b b \<Longrightarrow> cell b r c \<noteq> 0"
    and d: "distinct ps" and len: "length ps = size_b b"
    and rng: "\<And>r c. (r, c) \<in> set ps \<Longrightarrow> r < size_b b \<and> c < size_b b"
    and unit: "\<And>r c r' c'. (r, c) \<in> set ps \<Longrightarrow> (r', c') \<in> set ps \<Longrightarrow> same_unit b r c r' c'"
  shows "is_perm (size_b b) (map (\<lambda>(r, c). cell b r c) ps)"
proof -
  define n where "n = size_b b"
  define f where "f = (\<lambda>(r, c). cell b r c)"
  have ud: "units_distinct b" and vo: "values_ok b"
    using inv by (simp_all add: board_inv_def board_core_def)
  have inj: "inj_on f (set ps)"
  proof (rule inj_onI)
    fix p q assume a: "p \<in> set ps" "q \<in> set ps" "f p = f q"
    obtain r c where p: "p = (r, c)" by (cases p)
    obtain r' c' where q: "q = (r', c')" by (cases q)
    have 1: "r < size_b b" "c < size_b b" "r' < size_b b" "c' < size_b b"
      using rng a p q by blast+
    have "r = r' \<and> c = c'"
    proof (rule units_distinctD[OF ud 1])
      show "cell b r c \<noteq> 0" by (rule full[OF 1(1,2)])
      show "cell b r c = cell b r' c'" using a(3) by (simp add: f_def p q)
      show "same_unit b r c r' c'" using unit a p q by blast
    qed
    then show "p = q" by (simp add: p q)
  qed
  have dist: "distinct (map f ps)" using d inj by (simp add: distinct_map)
  have sub: "set (map f ps) \<subseteq> {1..n}"
  proof
    fix x assume "x \<in> set (map f ps)"
    then obtain r c where rc: "(r, c) \<in> set ps" "x = cell b r c" by (auto simp: f_def)
    then have 1: "r < size_b b" "c < size_b b" using rng by blast+
    have "cell b r c \<le> n" using vo 1 by (simp add: values_ok_def n_def)
    moreover have "cell b r c \<noteq> 0" by (rule full[OF 1])
    ultimately show "x \<in> {1..n}" using rc by simp
  qed
  have "card (set (map f ps)) = length (map f ps)" using dist by (rule distinct_card)
  then have "card (set (map f ps)) = n" using len by (simp add: n_def)
  then have "set (map f ps) = {1..n}"
    using sub by (intro card_subset_eq) simp_all
  then show ?thesis using dist by (simp add: is_perm_def f_def n_def)
qed

lemma box_cells_props:
  assumes wf: "board_wf b" and k: "k < size_b b"
  shows "distinct (box_cells (size_b b) k)" "length (box_cells (size_b b) k) = size_b b"
    "\<And>r c. (r, c) \<in> set (box_cells (size_b b) k) \<Longrightarrow>
       r < size_b b \<and> c < size_b b \<and> box_of b r c = k"
proof -
  define n where "n = size_b b"
  define R where "R = int_sqrt n"
  have RR: "R * R = n" using wf by (simp add: board_wf_def R_def n_def)
  have Rpos: "0 < R" using root_pos[OF wf] by (simp add: R_def n_def)
  have kd: "k div R < R" "k mod R < R" using k RR Rpos by (simp_all add: div_less_root n_def)
  have bc: "box_cells n k = List.product [R * (k div R)..<R * (k div R) + R]
      [R * (k mod R)..<R * (k mod R) + R]"
    by (simp add: box_cells_def Let_def R_def)
  show "distinct (box_cells (size_b b) k)"
    unfolding n_def[symmetric] bc by (simp add: distinct_product)
  show "length (box_cells (size_b b) k) = size_b b"
    unfolding n_def[symmetric] bc by (simp add: RR)
  fix r c assume "(r, c) \<in> set (box_cells (size_b b) k)"
  then have m: "R * (k div R) \<le> r \<and> r < R * (k div R) + R"
    "R * (k mod R) \<le> c \<and> c < R * (k mod R) + R"
    unfolding n_def[symmetric] bc by simp_all
  then have dv: "r div R = k div R" "c div R = k mod R"
    by (simp_all only: in_block_iff[OF Rpos])
  have "R * Suc (k div R) \<le> R * R" "R * Suc (k mod R) \<le> R * R"
    using kd by (simp_all only: Suc_le_eq mult_le_mono2)
  then have "r < n" "c < n" using m RR by simp_all
  moreover have "box_of b r c = k"
    using dv by (simp add: box_of_def box_finder_def Let_def R_def[symmetric] n_def[symmetric])
  ultimately show "r < size_b b \<and> c < size_b b \<and> box_of b r c = k" by (simp add: n_def)
qed

lemma full_board_solved:
  assumes inv: "board_inv b" and tot: "total_appearances b \<ge> int (size_b b * size_b b)"
  shows "board_solved b"
proof -
  define n where "n = size_b b"
  have wf: "board_wf b" using inv by (rule board_inv_wf)
  have full: "cell b r c \<noteq> 0" if "r < size_b b" "c < size_b b" for r c
    by (rule full_total[OF inv tot that])
  have t: "total_appearances b = int (size_b b * size_b b)"
    using total_le[OF inv] tot by simp
  have rowp: "is_perm (size_b b) (row_values b i)" if i: "i < size_b b" for i
  proof -
    have "is_perm (size_b b) (map (\<lambda>(r, c). cell b r c) (map (Pair i) [0..<size_b b]))"
      by (rule unit_perm[OF inv full]) (use i in \<open>auto simp: distinct_map inj_on_def same_unit_def\<close>)
    then show ?thesis by (simp add: row_values_def comp_def)
  qed
  have colp: "is_perm (size_b b) (col_values b i)" if i: "i < size_b b" for i
  proof -
    have "is_perm (size_b b) (map (\<lambda>(r, c). cell b r c) (map (\<lambda>r. (r, i)) [0..<size_b b]))"
      by (rule unit_perm[OF inv full]) (use i in \<open>auto simp: distinct_map inj_on_def same_unit_def\<close>)
    then show ?thesis by (simp add: col_values_def comp_def)
  qed
  have boxp: "is_perm (size_b b) (box_values b i)" if i: "i < size_b b" for i
    unfolding box_values_def
  proof (rule unit_perm[OF inv full])
    show "distinct (box_cells (size_b b) i)" "length (box_cells (size_b b) i) = size_b b"
      by (rule box_cells_props[OF wf i])+
  next
    fix r c assume "(r, c) \<in> set (box_cells (size_b b) i)"
    then show "r < size_b b \<and> c < size_b b" using box_cells_props(3)[OF wf i] by blast
  next
    fix r c r' c'
    assume "(r, c) \<in> set (box_cells (size_b b) i)" "(r', c') \<in> set (box_cells (size_b b) i)"
    then have "box_of b r c = i" "box_of b r' c' = i" using box_cells_props(3)[OF wf i] by blast+
    then show "same_unit b r c r' c'" by (simp add: same_unit_def)
  qed
  show ?thesis unfolding board_solved_def using t full rowp colp boxp by blast
qed

text \<open>The parts of a result.\<close>

fun status_of :: "outcome \<Rightarrow> int option" where
  "status_of (Ret r b k) = Some r"
| "status_of other = None"

fun board_of :: "outcome \<Rightarrow> board option" where
  "board_of (Ret r b k) = Some b"
| "board_of other = None"


lemma status_of_Some: "status_of out = Some r \<Longrightarrow> \<exists>b k. out = Ret r b k"
  by (cases out) auto

text \<open>
  C1. A board is whatever \<open>board_create\<close>, \<open>board_insert\<close> and \<open>board_solve\<close> have made
  of it (the struct is opaque in board.h), so it satisfies the invariants. When
  \<open>board_solve\<close> on such a board returns 0, the grid is full, the total is
  \<open>size * size\<close>, and every row, every column and every box holds each of the values
  1 to \<open>size\<close> once.
\<close>

theorem board_solve_solved:
  assumes "board_inv b" and "board_solve fuel b n = Ret 0 b' k"
  shows "board_solved b'"
proof -
  from solve_post_both[of fuel] assms
  have p: "solve_post (board_make_notes b) 0 b'" by blast
  then have "board_inv b'" "size_b b' = size_b b"
    "total_appearances b' \<ge> int (size_b b * size_b b)"
    by (simp_all add: solve_post_def evolves_def)
  then show ?thesis by (intro full_board_solved) simp_all
qed

theorem board_solve_solved_witness:
  "board_inv board_d \<and> status_of (board_solve 3 board_d 1) = Some 0 \<and>
   board_solved (the (board_of (board_solve 3 board_d 1)))"
proof -
  have s: "status_of (board_solve 3 board_d 1) = Some 0" by code_simp
  then obtain b' k where r: "board_solve 3 board_d 1 = Ret 0 b' k"
    using status_of_Some by blast
  from board_solve_solved[OF board_d_inv r] s r board_d_inv show ?thesis by simp
qed

section \<open>The depth counter\<close>

lemma depth_counter_both:
  "(\<forall>b n m. board_solve f b n = board_solve f b m) \<and>
   (\<forall>sz b nb n m. guess_loop f sz b nb n = guess_loop f sz b nb m)"
proof (induction f)
  case 0
  show ?case by simp
next
  case (Suc f)
  show ?case
  proof (intro conjI allI)
    fix b :: board and n m :: "32 word"
    have e: "\<And>sz b nb. guess_loop f sz b nb n = guess_loop f sz b nb m"
      using Suc by blast
    show "board_solve (Suc f) b n = board_solve (Suc f) b m"
      unfolding board_solve.simps e by (rule refl)
  next
    fix sz :: nat and b nb :: board and n m :: "32 word"
    have e1: "\<And>b. board_solve f b (n + 1) = board_solve f b (m + 1)"
      using Suc by blast
    have e2: "\<And>sz b nb. guess_loop f sz b nb n = guess_loop f sz b nb m"
      using Suc by blast
    show "guess_loop (Suc f) sz b nb n = guess_loop (Suc f) sz b nb m"
      unfolding guess_loop.simps e1 e2 by (rule refl)
  qed
qed

text \<open>
  C9. The second argument of \<open>board_solve\<close> is passed on as \<open>n + 1\<close> and never read:
  for every board and every two values of it the result is the same, status and board
  (and, here, also the fuel that is needed and the count of \<open>board_make_notes\<close> runs).
\<close>

theorem board_solve_depth_counter: "board_solve fuel b n = board_solve fuel b m"
  using depth_counter_both[of fuel] by blast

theorem board_solve_depth_counter_witness:
  "board_solve 3 board_d 1 = board_solve 3 board_d 2147483647"
  by (rule board_solve_depth_counter)

section \<open>The status of \<open>board_solve\<close>\<close>

text \<open>A full grid that keeps the numbers on the board and has no number twice in a unit.\<close>

definition solves :: "board \<Rightarrow> (nat \<Rightarrow> nat \<Rightarrow> nat) \<Rightarrow> bool" where
  "solves b g \<longleftrightarrow>
     (\<forall>r < size_b b. \<forall>c < size_b b.
        0 < g r c \<and> g r c \<le> size_b b \<and> (cell b r c \<noteq> 0 \<longrightarrow> g r c = cell b r c)) \<and>
     (\<forall>r < size_b b. \<forall>c < size_b b. \<forall>r' < size_b b. \<forall>c' < size_b b.
        g r c = g r' c' \<and> same_unit b r c r' c' \<longrightarrow> r = r' \<and> c = c')"

lemma solved_solves:
  assumes inv: "board_inv b'" and full: "total_appearances b' \<ge> int (size_b b' * size_b b')"
    and sz: "size_b b' = size_b b" and ext: "grid_extends b b'"
  shows "solves b (cell b')"
  unfolding solves_def
proof (intro conjI allI impI)
  fix r c assume a: "r < size_b b" "c < size_b b"
  have nz: "cell b' r c \<noteq> 0" using full_total[OF inv full] a sz by simp
  then show "0 < cell b' r c" by simp
  show "cell b' r c \<le> size_b b"
    using inv a sz by (simp add: board_inv_def board_core_def values_ok_def)
  assume "cell b r c \<noteq> 0"
  then show "cell b' r c = cell b r c" using ext a by (simp add: grid_extends_def)
next
  fix r c r' c'
  assume a: "r < size_b b" "c < size_b b" "r' < size_b b" "c' < size_b b"
    "cell b' r c = cell b' r' c' \<and> same_unit b r c r' c'"
  have ud: "units_distinct b'" using inv by (simp add: board_inv_def board_core_def)
  have su: "same_unit b' r c r' c'" using a(5) same_unit_size[OF sz] by simp
  have nz: "cell b' r c \<noteq> 0" using full_total[OF inv full] a sz by simp
  have "r = r' \<and> c = c'"
    by (rule units_distinctD[OF ud _ _ _ _ nz _ su]) (use a sz in simp_all)
  then show "r = r'" "c = c'" by simp_all
qed

lemma not_full_not_solved:
  "total_appearances b < int (size_b b * size_b b) \<Longrightarrow> \<not> board_solved b"
  by (simp add: board_solved_def)

text \<open>
  A board of size 4 without solution: the last cell of row 1 has no candidate.
  \<^verbatim>\<open>
    1 2 3 .
    . . . 4
    . . . .
    . . . .
  \<close>
\<close>

definition board_u :: board where
  "board_u = the (main_board 4 [(1, 1, 1), (2, 1, 2), (3, 1, 3), (4, 2, 4)])"

lemma board_u_inv: "board_inv board_u"
proof -
  have "main_board 4 [(1, 1, 1), (2, 1, 2), (3, 1, 3), (4, 2, 4)] \<noteq> None" by code_simp
  then have "main_board 4 [(1, 1, 1), (2, 1, 2), (3, 1, 3), (4, 2, 4)] = Some board_u"
    by (simp add: board_u_def)
  then show ?thesis by (rule main_board_inv)
qed

section \<open>Refused insertions during propagation\<close>

text \<open>
  A board of size 4 on which the number 1 has \<open>size - 1\<close> entries and the cell where
  the row and the column without a 1 meet is filled:
  \<^verbatim>\<open>
    1 . . .
    . . 1 .
    . 1 . .
    . . . 2
  \<close>
\<close>

definition board_v :: board where
  "board_v = the (main_board 4 [(1, 1, 1), (1, 2, 3), (1, 3, 2), (2, 4, 4)])"

section \<open>How often the notes are derived\<close>

lemma candidate_make_notes [simp]: "candidate (board_make_notes b) = candidate b"
  by (intro ext)
    (simp add: candidate_def cell_def used_row_def used_col_def used_box_def box_of_def)

lemma make_notes_idem:
  assumes wf: "board_wf b"
  shows "board_make_notes (board_make_notes b) = board_make_notes b"
proof -
  define n where "n = size_b b"
  define b1 where "b1 = board_make_notes b"
  have nw: "notes_wf n (notes_b b)" using wf by (simp add: board_wf_def n_def)
  have nw1: "notes_wf n (notes_b b1)"
    using make_notes_added[OF nw n_def[symmetric]] by (simp add: added_def b1_def)
  have wf1: "board_wf b1"
    using wf nw1 by (simp add: board_wf_def b1_def n_def)
  have sz1: "size_b b1 = n" by (simp add: b1_def n_def)
  have nw2: "notes_wf n (notes_b (board_make_notes b1))"
    using make_notes_added[OF nw1 sz1] by (simp add: added_def)
  have nt: "has_note (board_make_notes b1) r c v = has_note b1 r c v"
    if "r < n" "c < n" "0 < v" "v \<le> n" for r c v
    using make_notes_note[OF wf1, of r c v] make_notes_note[OF wf, of r c v] that
    by (auto simp: sz1 b1_def n_def)
  have "notes_b (board_make_notes b1) = notes_b b1"
  proof (rule nth_equalityI)
    show "length (notes_b (board_make_notes b1)) = length (notes_b b1)"
      using nw1 nw2 by (simp add: notes_wf_def)
    fix r assume "r < length (notes_b (board_make_notes b1))"
    then have r: "r < n" using nw2 by (simp add: notes_wf_def)
    show "notes_b (board_make_notes b1) ! r = notes_b b1 ! r"
    proof (rule nth_equalityI)
      show "length (notes_b (board_make_notes b1) ! r) = length (notes_b b1 ! r)"
        using nw1 nw2 r by (simp add: notes_wf_def)
      fix c assume "c < length (notes_b (board_make_notes b1) ! r)"
      then have c: "c < n" using nw2 r by (simp add: notes_wf_def)
      show "notes_b (board_make_notes b1) ! r ! c = notes_b b1 ! r ! c"
      proof (rule heatmap_eqI[where n = n])
        show "heatmap_wf n (notes_b (board_make_notes b1) ! r ! c)" "heatmap_wf n (notes_b b1 ! r ! c)"
          using nw1 nw2 r c by (simp_all add: notes_wf_def)
        fix v assume "0 < v" "v \<le> n"
        then show "heatmap_check (notes_b (board_make_notes b1) ! r ! c) v =
            heatmap_check (notes_b b1 ! r ! c) v"
          using nt[OF r c] by (simp add: has_note_def)
      qed
    qed
  qed
  moreover have "board_make_notes b1 = b1\<lparr>notes_b := notes_b (board_make_notes b1)\<rparr>"
    by (simp add: board_make_notes_def Let_def)
  ultimately show ?thesis by (simp add: b1_def)
qed



section \<open>The empty board\<close>

text \<open>The board of size 4 as \<open>board_create\<close> returns it.\<close>

definition board_e :: board where
  "board_e = the (board_create 4)"

lemma board_e_diverges:
  "board_solve fuel board_e n = Out_of_fuel \<and>
   board_solve fuel (board_make_notes board_e) n = Out_of_fuel \<and>
   guess_loop fuel 4 (board_make_notes board_e) board_e n = Out_of_fuel"
proof (induction fuel arbitrary: n)
  case 0
  show ?case by simp
next
  case (Suc f)
  define b1 where "b1 = board_make_notes board_e"
  have c: "board_create 4 = Some board_e"
  proof -
    have "board_create 4 \<noteq> None" by code_simp
    then show ?thesis by (simp add: board_e_def)
  qed
  have inv: "board_inv board_e" by (rule board_create_inv[OF c])
  have sz: "board_get_size board_e = 4" "board_get_size b1 = 4" unfolding b1_def by code_simp+
  have sz': "size_b board_e = 4" "size_b b1 = 4" using sz by (simp_all add: board_get_size_def)
  have idem: "board_make_notes b1 = b1"
    unfolding b1_def by (rule make_notes_idem[OF board_inv_wf[OF inv]])
  have rounds: "solve_rounds 4 b1 = Running b1" unfolding b1_def by code_simp
  have tot: "\<not> total_appearances b1 \<ge> int (4 * 4)" unfolding b1_def by code_simp
  have inv1: "board_inv b1" unfolding b1_def by (rule make_notes_evolves(1)[OF inv])
  have cp: "board_copy board_e b1 = Some b1"
    by (rule board_copy_src[OF inv1 board_inv_wf[OF inv]]) (simp add: sz')
  have scan: "guess_scan 4 (guess_order 4) b1 = Scan_done b1 None" unfolding b1_def by code_simp
  have IH: "board_solve f b1 m = Out_of_fuel" "guess_loop f 4 b1 board_e m = Out_of_fuel" for m
    using Suc[of m] by (simp_all add: b1_def)
  have 1: "board_solve (Suc f) board_e n = Out_of_fuel"
    using rounds tot c IH(2)[of n] by (simp add: sz b1_def[symmetric])
  have 2: "board_solve (Suc f) b1 n = Out_of_fuel"
    using rounds tot c IH(2)[of n] by (simp add: sz idem)
  have 3: "guess_loop (Suc f) 4 b1 board_e n = Out_of_fuel"
    using cp scan IH(1)[of "n + 1"] by simp
  show ?case using 1 2 3 by (simp add: b1_def)
qed

text \<open>
  C5, at the failing input: on the empty board of size 4 no fuel is enough. Propagation
  inserts nothing, the scan for a guess passes over every cell (each has 4 notes and the
  scan stops at \<open>size - 1\<close>), and the recursive call gets a copy of the same board.
\<close>

theorem board_solve_empty_board: "board_solve fuel board_e n = Out_of_fuel"
  using board_e_diverges[of fuel n] by simp

theorem board_solve_empty_board_witness: "board_solve 1000 board_e 1 = Out_of_fuel"
  by (rule board_solve_empty_board)

text \<open>
  C6, at the failing input: after propagation on the empty board of size 4 every cell
  is empty and has 4 notes, and the scan for a guess ends without choosing a cell.
\<close>

theorem guess_scan_empty_board:
  "solve_rounds 4 (board_make_notes board_e) = Running (board_make_notes board_e) \<and>
   cell (board_make_notes board_e) 0 0 = 0 \<and>
   count (notes_b (board_make_notes board_e) ! 0 ! 0) = 4 \<and>
   guess_scan 4 (guess_order 4) (board_make_notes board_e) =
     Scan_done (board_make_notes board_e) None"
  by code_simp

theorem guess_scan_empty_board_witness:
  "guess_scan 4 (guess_order 4) (board_make_notes board_e) =
     Scan_done (board_make_notes board_e) None"
  using guess_scan_empty_board by simp

subsection \<open>The status of \<open>board_solve\<close> on any board\<close>

text \<open>
  Whatever the board, a call of \<open>board_solve\<close> that returns gives the status 0 or 1: the
  branch of the guessing loop for another status is dead code.
\<close>

lemma status_0_or_1:
  "(\<forall>b n r b' k. board_solve f b n = Ret r b' k \<longrightarrow> r = 0 \<or> r = 1) \<and>
   (\<forall>sz b nb n r b' k. guess_loop f sz b nb n = Ret r b' k \<longrightarrow> r = 0 \<or> r = 1)"
proof (induction f)
  case 0
  show ?case by simp
next
  case (Suc f)
  have IHs: "\<And>b n r b' k. board_solve f b n = Ret r b' k \<Longrightarrow> r = 0 \<or> r = 1"
    and IHl: "\<And>sz b nb n r b' k. guess_loop f sz b nb n = Ret r b' k \<Longrightarrow> r = 0 \<or> r = 1"
    using Suc by blast+
  show ?case
  proof (intro conjI allI impI)
    fix b n r b' k assume a: "board_solve (Suc f) b n = Ret r b' k"
    have ok: "flow_ok (board_get_size b) (board_make_notes b)
        (solve_rounds (board_get_size b) (board_make_notes b))"
      by (rule solve_rounds_ok)
    show "r = 0 \<or> r = 1"
      using a ok
      by (auto simp: Let_def split: flow.splits option.splits if_splits
          dest!: add_runs_Ret dest: IHl)
  next
    fix sz b nb n r b' k assume a: "guess_loop (Suc f) sz b nb n = Ret r b' k"
    show "r = 0 \<or> r = 1"
      using a
      by (auto split: option.splits scan.splits outcome.splits if_splits prod.splits
          dest!: add_runs_Ret dest: IHl)
  qed
qed

section \<open>What one deduction rule does to the board\<close>

text \<open>
  A stretch of the propagation that goes on, after at most one insertion that
  \<open>board_insert\<close> accepted: the board is as it was (nothing to insert, or every
  insertion refused), or it is the board one accepted insertion left.
\<close>

definition one_insert :: "board \<Rightarrow> flow \<Rightarrow> bool" where
  "one_insert b fl \<longleftrightarrow>
     fl = Running b \<or>
     (\<exists>row col val b1. board_insert b row col val = Some (0, b1) \<and> fl = Running b1)"

lemma one_insert_same [simp]: "one_insert b (Running b)"
  by (simp add: one_insert_def)

lemma one_insert_not_Failed: "one_insert b fl \<Longrightarrow> fl \<noteq> Failed"
  by (auto simp: one_insert_def)

lemma board_insert_Some:
  assumes "0 < row" "row \<le> size_b b" "0 < col" "col \<le> size_b b" "0 < val" "val \<le> size_b b"
  shows "\<exists>st b1. board_insert b row col val = Some (st, b1)"
  using assms by (auto simp: board_insert_def board_get_size_def Let_def)

lemma insert_discard_one:
  assumes "0 < row" "row \<le> size_b b" "0 < col" "col \<le> size_b b" "0 < val" "val \<le> size_b b"
  shows "one_insert b (insert_discard b row col val)"
proof -
  obtain st b1 where bi: "board_insert b row col val = Some (st, b1)"
    using board_insert_Some[OF assms] by blast
  show ?thesis
  proof (cases "st = 0")
    case True
    then show ?thesis using bi unfolding one_insert_def insert_discard_def by auto
  next
    case False
    then have "b1 = b" using board_insert_cases[OF bi] by auto
    then show ?thesis using bi by (simp add: insert_discard_def)
  qed
qed

lemma value_scan_one:
  assumes "0 < val" "val \<le> size_b b" "\<forall>j\<in>set js. j < size_b b"
    "\<forall>r. row = Some r \<longrightarrow> r < size_b b" "\<forall>c. col = Some c \<longrightarrow> c < size_b b"
  shows "one_insert b (value_scan b val js row col)"
  using assms(3-)
proof (induction js arbitrary: row col)
  case Nil
  then show ?case by simp
next
  case (Cons j js)
  define row' where "row' = (if \<not> heatmap_check (rows b ! j) val then Some j else row)"
  define col' where "col' = (if \<not> heatmap_check (cols b ! j) val then Some j else col)"
  have j: "j < size_b b" using Cons.prems(1) by simp
  have r': "\<forall>r. row' = Some r \<longrightarrow> r < size_b b" using Cons.prems(2) j by (auto simp: row'_def)
  have c': "\<forall>c. col' = Some c \<longrightarrow> c < size_b b" using Cons.prems(3) j by (auto simp: col'_def)
  have eq: "value_scan b val (j # js) row col =
      (if row' \<noteq> None \<and> col' \<noteq> None
       then insert_discard b (the row' + 1) (the col' + 1) val
       else value_scan b val js row' col')"
    by (simp add: row'_def col'_def Let_def)
  show ?case
  proof (cases "row' \<noteq> None \<and> col' \<noteq> None")
    case True
    then obtain r c where rc: "row' = Some r" "col' = Some c" by auto
    then have "r < size_b b" "c < size_b b" using r' c' by auto
    then have "one_insert b (insert_discard b (r + 1) (c + 1) val)"
      using assms(1,2) by (intro insert_discard_one) simp_all
    then show ?thesis unfolding eq using True rc by simp
  next
    case False
    have "one_insert b (value_scan b val js row' col')"
      by (rule Cons.IH) (use Cons.prems(1) r' c' in simp_all)
    then show ?thesis unfolding eq using False by auto
  qed
qed

lemma rule_value_one: "i < size_b b \<Longrightarrow> one_insert b (rule_value (size_b b) i b)"
  unfolding rule_value_def by (simp add: value_scan_one)

lemma row_scan_one:
  assumes "i < size_b b" "\<forall>j\<in>set js. j < size_b b"
    "\<forall>c. col = Some c \<longrightarrow> c < size_b b" "\<forall>v. val = Some v \<longrightarrow> 0 < v \<and> v \<le> size_b b"
  shows "one_insert b (row_scan b i js col val)"
  using assms(2-)
proof (induction js arbitrary: col val)
  case Nil
  then show ?case by simp
next
  case (Cons j js)
  define val' where "val' = (if \<not> heatmap_check (rows b ! i) (j + 1) then Some (j + 1) else val)"
  define col' where "col' = (if data b ! i ! j = 0 then Some j else col)"
  have j: "j < size_b b" using Cons.prems(1) by simp
  have v': "\<forall>v. val' = Some v \<longrightarrow> 0 < v \<and> v \<le> size_b b"
    using Cons.prems(3) j by (auto simp: val'_def)
  have c': "\<forall>c. col' = Some c \<longrightarrow> c < size_b b" using Cons.prems(2) j by (auto simp: col'_def)
  have eq: "row_scan b i (j # js) col val =
      (if col' \<noteq> None \<and> val' \<noteq> None
       then insert_discard b (i + 1) (the col' + 1) (the val')
       else row_scan b i js col' val')"
    by (simp add: val'_def col'_def Let_def)
  show ?case
  proof (cases "col' \<noteq> None \<and> val' \<noteq> None")
    case True
    then obtain c v where cv: "col' = Some c" "val' = Some v" by auto
    then have "c < size_b b" "0 < v" "v \<le> size_b b" using v' c' by auto
    then have "one_insert b (insert_discard b (i + 1) (c + 1) v)"
      using assms(1) by (intro insert_discard_one) simp_all
    then show ?thesis unfolding eq using True cv by simp
  next
    case False
    have "one_insert b (row_scan b i js col' val')"
      by (rule Cons.IH) (use Cons.prems(1) v' c' in simp_all)
    then show ?thesis unfolding eq using False by auto
  qed
qed

lemma rule_row_one: "i < size_b b \<Longrightarrow> one_insert b (rule_row (size_b b) i b)"
  unfolding rule_row_def by (simp add: row_scan_one)

lemma col_scan_one:
  assumes "i < size_b b" "\<forall>j\<in>set js. j < size_b b"
    "\<forall>r. row = Some r \<longrightarrow> r < size_b b" "\<forall>v. val = Some v \<longrightarrow> 0 < v \<and> v \<le> size_b b"
  shows "one_insert b (col_scan b i js row val)"
  using assms(2-)
proof (induction js arbitrary: row val)
  case Nil
  then show ?case by simp
next
  case (Cons j js)
  define val' where "val' = (if \<not> heatmap_check (cols b ! i) (j + 1) then Some (j + 1) else val)"
  define row' where "row' = (if data b ! j ! i = 0 then Some j else row)"
  have j: "j < size_b b" using Cons.prems(1) by simp
  have v': "\<forall>v. val' = Some v \<longrightarrow> 0 < v \<and> v \<le> size_b b"
    using Cons.prems(3) j by (auto simp: val'_def)
  have r': "\<forall>r. row' = Some r \<longrightarrow> r < size_b b" using Cons.prems(2) j by (auto simp: row'_def)
  have eq: "col_scan b i (j # js) row val =
      (if row' \<noteq> None \<and> val' \<noteq> None
       then insert_discard b (the row' + 1) (i + 1) (the val')
       else col_scan b i js row' val')"
    by (simp add: val'_def row'_def Let_def)
  show ?case
  proof (cases "row' \<noteq> None \<and> val' \<noteq> None")
    case True
    then obtain r v where rv: "row' = Some r" "val' = Some v" by auto
    then have "r < size_b b" "0 < v" "v \<le> size_b b" using v' r' by auto
    then have "one_insert b (insert_discard b (r + 1) (i + 1) v)"
      using assms(1) by (intro insert_discard_one) simp_all
    then show ?thesis unfolding eq using True rv by simp
  next
    case False
    have "one_insert b (col_scan b i js row' val')"
      by (rule Cons.IH) (use Cons.prems(1) v' r' in simp_all)
    then show ?thesis unfolding eq using False by auto
  qed
qed

lemma rule_col_one: "i < size_b b \<Longrightarrow> one_insert b (rule_col (size_b b) i b)"
  unfolding rule_col_def by (simp add: col_scan_one)

text \<open>A loop of such stretches, when no insertion is accepted after an accepted one.\<close>

lemma flow_fold_stay:
  "(\<And>x. x \<in> set xs \<Longrightarrow> f x b = Running b) \<Longrightarrow> flow_fold f xs b = Running b"
  by (induction xs) simp_all

lemma flow_fold_one:
  assumes step: "\<And>x. x \<in> set xs \<Longrightarrow> f x b = Running b \<or> (\<exists>b1. Q b1 \<and> f x b = Running b1)"
    and after: "\<And>x b1. x \<in> set xs \<Longrightarrow> Q b1 \<Longrightarrow> f x b1 = Running b1"
  shows "flow_fold f xs b = Running b \<or> (\<exists>b1. Q b1 \<and> flow_fold f xs b = Running b1)"
  using assms
proof (induction xs)
  case Nil
  then show ?case by simp
next
  case (Cons x xs)
  have "f x b = Running b \<or> (\<exists>b1. Q b1 \<and> f x b = Running b1)" using Cons.prems(1) by simp
  then show ?case
  proof
    assume "f x b = Running b"
    then show ?thesis using Cons by simp
  next
    assume "\<exists>b1. Q b1 \<and> f x b = Running b1"
    then obtain b1 where b1: "Q b1" "f x b = Running b1" by blast
    have "flow_fold f xs b1 = Running b1"
      by (rule flow_fold_stay) (use Cons.prems(2) b1 in simp)
    then show ?thesis using b1 by auto
  qed
qed

text \<open>Boxes with \<open>size - 1\<close> entries.\<close>

lemma box_missing_fold:
  "fold (\<lambda>j val. if P j then Some (j + 1) else val) js init = Some v \<Longrightarrow>
   init = Some v \<or> (\<exists>j \<in> set js. v = j + 1)"
  by (induction js arbitrary: init) (auto split: if_splits)

lemma box_missing_fold_Some:
  "(\<exists>j \<in> set js. P j) \<or> init \<noteq> None \<Longrightarrow>
   fold (\<lambda>j val. if P j then Some (j + 1) else val) js init \<noteq> None"
  by (induction js arbitrary: init) auto

lemma box_missing_range: "box_missing b i sz = Some v \<Longrightarrow> 0 < v \<and> v \<le> sz"
  unfolding box_missing_def by (drule box_missing_fold) auto

lemma trues_less: "trues xs < length xs \<Longrightarrow> \<exists>j < length xs. \<not> xs ! j"
proof (rule ccontr)
  assume a: "trues xs < length xs" "\<not> (\<exists>j < length xs. \<not> xs ! j)"
  then have "\<forall>x \<in> set xs. x" by (auto simp: in_set_conv_nth)
  then have "filter (\<lambda>x. x) xs = xs" by (simp add: filter_id_conv)
  then show False using a(1) by (simp add: trues_def)
qed

lemma box_missing_Some:
  assumes "heatmap_wf sz (boxs b ! i)" "count (boxs b ! i) = int sz - 1" 
  shows "box_missing b i sz \<noteq> None"
proof -
  have "int (trues (map_h (boxs b ! i))) = int sz - 1" "length (map_h (boxs b ! i)) = sz"
    using assms by (simp_all add: heatmap_wf_def)
  then have "trues (map_h (boxs b ! i)) < length (map_h (boxs b ! i))" by linarith
  then obtain j where "j < sz" "\<not> map_h (boxs b ! i) ! j"
    using trues_less \<open>length (map_h (boxs b ! i)) = sz\<close> by blast
  then have "\<exists>j \<in> set [0..<sz]. \<not> heatmap_check (boxs b ! i) (j + 1)"
    by (auto simp: heatmap_check_def)
  then show ?thesis unfolding box_missing_def by (intro box_missing_fold_Some) simp
qed

lemma box_fill_row_one:
  assumes "r < size_b b" "\<forall>j\<in>set js. j < size_b b" "0 < v" "v \<le> size_b b"
  shows "box_fill_row (Some v) r js b = Running b \<or>
         (\<exists>b1. (\<exists>j \<in> set js. board_insert b (r + 1) (j + 1) v = Some (0, b1)) \<and>
            box_fill_row (Some v) r js b = Running b1)"
  using assms(2)
proof (induction js)
  case Nil
  then show ?case by simp
next
  case (Cons j js)
  show ?case
  proof (cases "data b ! r ! j = 0")
    case False
    then show ?thesis using Cons by auto
  next
    case True
    have j: "j < size_b b" using Cons.prems by simp
    obtain st b1 where bi: "board_insert b (r + 1) (j + 1) v = Some (st, b1)"
      using board_insert_Some[of "r + 1" b "j + 1" v] assms j by auto
    show ?thesis
    proof (cases "st = 0")
      case st: True
      then show ?thesis using bi True by (auto simp: insert_discard_def)
    next
      case False
      then have "b1 = b" using board_insert_cases[OF bi] by auto
      then show ?thesis using bi True by (simp add: insert_discard_def)
    qed
  qed
qed

lemma box_fill_row_refused:
  assumes "r < size_b b" "\<forall>j\<in>set js. j < size_b b \<and> box_of b r j = k" "0 < v" "v \<le> size_b b"
    and "used_box b k v"
  shows "box_fill_row (Some v) r js b = Running b"
  using assms(2)
proof (induction js)
  case Nil
  then show ?case by simp
next
  case (Cons j js)
  show ?case
  proof (cases "data b ! r ! j = 0")
    case False
    then show ?thesis using Cons by auto
  next
    case True
    have j: "j < size_b b" "box_of b r j = k" using Cons.prems by simp_all
    obtain st b1 where bi: "board_insert b (r + 1) (j + 1) v = Some (st, b1)"
      using board_insert_Some[of "r + 1" b "j + 1" v] assms j by auto
    have "st \<noteq> 0" using board_insert_cases[OF bi] assms(5) j by auto
    then have "b1 = b" using board_insert_cases[OF bi] by auto
    then show ?thesis using bi True by (simp add: insert_discard_def)
  qed
qed

lemma box_range:
  assumes wf: "board_wf b" and k: "k < size_b b"
    and r: "r \<in> set [int_sqrt (size_b b) * (k div int_sqrt (size_b b))..<
                     int_sqrt (size_b b) * (k div int_sqrt (size_b b)) + int_sqrt (size_b b)]"
    and c: "c \<in> set [int_sqrt (size_b b) * (k mod int_sqrt (size_b b))..<
                     int_sqrt (size_b b) * (k mod int_sqrt (size_b b)) + int_sqrt (size_b b)]"
  shows "r < size_b b \<and> c < size_b b \<and> box_of b r c = k"
proof -
  have "(r, c) \<in> set (box_cells (size_b b) k)"
    using r c by (simp add: box_cells_def Let_def)
  then show ?thesis using box_cells_props(3)[OF wf k] by blast
qed

lemma rule_box_one:
  assumes wf: "board_wf b" and i: "i < size_b b"
  shows "one_insert b (rule_box (size_b b) i b)"
proof (cases "count (boxs b ! i) = int (size_b b) - 1")
  case False
  then show ?thesis by (simp add: rule_box_def)
next
  case True
  define n where "n = size_b b"
  define root where "root = int_sqrt n"
  define rs where "rs = [root * (i div root)..<root * (i div root) + root]"
  define cs where "cs = [root * (i mod root)..<root * (i mod root) + root]"
  have hw: "heatmap_wf n (boxs b ! i)" using wf i by (simp add: board_wf_def n_def)
  obtain v where v: "box_missing b i n = Some v"
    using box_missing_Some[OF hw] True by (auto simp: n_def)
  have vr: "0 < v" "v \<le> n" using box_missing_range[OF v] by simp_all
  have rng: "r < n \<and> c < n \<and> box_of b r c = i" if "r \<in> set rs" "c \<in> set cs" for r c
    using box_range[OF wf i, of r c] that by (simp add: rs_def cs_def root_def n_def)
  have root0: "0 < root" using root_pos[OF wf] by (simp add: root_def n_def)
  have ne: "root * (i div root) \<in> set rs" "root * (i mod root) \<in> set cs"
    using root0 by (simp_all add: rs_def cs_def)
  have rr: "r < n" if "r \<in> set rs" for r using rng[OF that ne(2)] by simp
  have cc: "c < n" if "c \<in> set cs" for c using rng[OF ne(1) that] by simp
  have rb: "rule_box (size_b b) i b = flow_fold (\<lambda>r. box_fill_row (Some v) r cs) rs b"
    using True v by (simp add: rule_box_def Let_def board_get_size_def rs_def cs_def root_def n_def)
  define Q where "Q b1 = (\<exists>r \<in> set rs. \<exists>j \<in> set cs. board_insert b (r + 1) (j + 1) v = Some (0, b1))" for b1
  have "flow_fold (\<lambda>r. box_fill_row (Some v) r cs) rs b = Running b \<or>
        (\<exists>b1. Q b1 \<and> flow_fold (\<lambda>r. box_fill_row (Some v) r cs) rs b = Running b1)"
  proof (rule flow_fold_one)
    fix r assume r: "r \<in> set rs"
    have "box_fill_row (Some v) r cs b = Running b \<or>
         (\<exists>b1. (\<exists>j \<in> set cs. board_insert b (r + 1) (j + 1) v = Some (0, b1)) \<and>
            box_fill_row (Some v) r cs b = Running b1)"
      by (rule box_fill_row_one) (use rr[OF r] cc vr in \<open>auto simp: n_def\<close>)
    then show "box_fill_row (Some v) r cs b = Running b \<or>
        (\<exists>b1. Q b1 \<and> box_fill_row (Some v) r cs b = Running b1)"
      using r unfolding Q_def by blast
  next
    fix r b1 assume r: "r \<in> set rs" and q: "Q b1"
    then obtain r0 j0 where 0: "r0 \<in> set rs" "j0 \<in> set cs"
      and bi: "board_insert b (r0 + 1) (j0 + 1) v = Some (0, b1)"
      unfolding Q_def by blast
    have ins: "inserted b r0 j0 v b1" using board_insert_inserted[OF wf bi] by simp
    have sz1: "size_b b1 = n" using inserted_size[OF ins] by (simp add: n_def)
    have "used_box b1 i v"
      using inserted_used(3)[OF ins, of i v] i vr rng[OF 0] by (simp add: n_def)
    moreover have "\<forall>j\<in>set cs. j < size_b b1 \<and> box_of b1 r j = i"
      using rng[OF r] sz1 box_of_size[of b1 b] by (simp add: n_def)
    ultimately show "box_fill_row (Some v) r cs b1 = Running b1"
      using rr[OF r] vr sz1 by (intro box_fill_row_refused[where k = i]) auto
  qed
  then show ?thesis unfolding rb one_insert_def Q_def by blast
qed

text \<open>Squares with only one possible number.\<close>

lemma single_cell_one:
  assumes wf: "board_wf b" and ij: "i < size_b b" "j < size_b b"
  shows "one_insert b (single_cell (size_b b) i j b) \<or>
         single_cell (size_b b) i j b = Returned 1 b"
proof (cases "count (notes_b b ! i ! j) = 1")
  case False
  then show ?thesis by (simp add: single_cell_def)
next
  case True
  define n where "n = size_b b"
  define Q where "Q b1 = (\<exists>v. board_insert b (i + 1) (j + 1) v = Some (0, b1))" for b1
  have "flow_fold (single_fill i j) [1..<n + 1] b = Running b \<or>
        (\<exists>b1. Q b1 \<and> flow_fold (single_fill i j) [1..<n + 1] b = Running b1)"
  proof (rule flow_fold_one)
    fix v assume "v \<in> set [1..<n + 1]"
    then have v: "0 < v" "v \<le> n" by auto
    obtain st b1 where bi: "board_insert b (i + 1) (j + 1) v = Some (st, b1)"
      using board_insert_Some[of "i + 1" b "j + 1" v] ij v by (auto simp: n_def)
    show "single_fill i j v b = Running b \<or> (\<exists>b1. Q b1 \<and> single_fill i j v b = Running b1)"
    proof (cases "st = 0")
      case True
      then show ?thesis using bi unfolding Q_def single_fill_def insert_discard_def by auto
    next
      case False
      then have "b1 = b" using board_insert_cases[OF bi] by auto
      then show ?thesis using bi by (simp add: single_fill_def insert_discard_def)
    qed
  next
    fix v b1 assume "v \<in> set [1..<n + 1]" and q: "Q b1"
    then have v: "0 < v" "v \<le> n" by auto
    from q obtain u where bi: "board_insert b (i + 1) (j + 1) u = Some (0, b1)"
      unfolding Q_def by blast
    have ins: "inserted b i j u b1" using board_insert_inserted[OF wf bi] by simp
    have "\<not> has_note b1 i j v" using inserted_note[OF ins ij, of v] v by (simp add: n_def)
    then show "single_fill i j v b1 = Running b1" by (simp add: single_fill_def has_note_def)
  qed
  then have "one_insert b (flow_fold (single_fill i j) [1..<n + 1] b)"
    unfolding one_insert_def Q_def by blast
  then show ?thesis using True by (simp only: single_cell_def n_def if_True simp_thms)
qed

text \<open>Numbers that exist only once in the notes of a row, a column or a box.\<close>

lemma row_note_count_col:
  assumes "\<forall>j\<in>set js. j < sz" "0 \<le> row_count" "row_count \<ge> 1 \<longrightarrow> (\<exists>c < sz. col = Some c)"
    and "row_note_count b i val js row_count col = (k, col')" "k \<ge> 1"
  shows "\<exists>c < sz. col' = Some c"
  using assms
proof (induction js arbitrary: row_count col)
  case Nil
  then show ?case by simp
next
  case (Cons j js)
  have j: "j < sz" using Cons.prems(1) by simp
  show ?case
  proof (cases "heatmap_check (notes_b b ! i ! j) val")
    case False
    then have "row_note_count b i val js row_count col = (k, col')" using Cons.prems(4) by simp
    then show ?thesis using Cons.IH[of row_count col] Cons.prems by simp
  next
    case True
    show ?thesis
    proof (cases "row_count + 1 > 1")
      case t: True
      then show ?thesis using Cons.prems(4) True j by auto
    next
      case False
      then have "row_note_count b i val js (row_count + 1) (Some j) = (k, col')"
        using Cons.prems(4) True by simp
      then show ?thesis using Cons.IH[of "row_count + 1" "Some j"] Cons.prems j by simp
    qed
  qed
qed

lemma hidden_row_one:
  assumes "i < size_b b" "0 < val" "val \<le> size_b b"
  shows "one_insert b (hidden_row (size_b b) val i b)"
proof (cases "row_note_count b i val [0..<size_b b] 0 None")
  case (Pair k col')
  show ?thesis
  proof (cases "\<not> heatmap_check (rows b ! i) val \<and> k = 1")
    case False
    then show ?thesis using Pair by (auto simp: hidden_row_def)
  next
    case True
    obtain c where c: "c < size_b b" "col' = Some c"
      using row_note_count_col[where sz = "size_b b", OF _ _ _ Pair] True by auto
    have "one_insert b (insert_discard b (i + 1) (c + 1) val)"
      by (rule insert_discard_one) (use assms c in simp_all)
    then show ?thesis using True Pair c by (simp add: hidden_row_def)
  qed
qed

lemma col_note_count_row:
  assumes "\<forall>j\<in>set js. j < sz" "0 \<le> col_count" "col_count \<ge> 1 \<longrightarrow> (\<exists>r < sz. row = Some r)"
    and "col_note_count b i val js col_count row = (k, row')" "k \<ge> 1"
  shows "\<exists>r < sz. row' = Some r"
  using assms
proof (induction js arbitrary: col_count row)
  case Nil
  then show ?case by simp
next
  case (Cons j js)
  have j: "j < sz" using Cons.prems(1) by simp
  show ?case
  proof (cases "heatmap_check (notes_b b ! j ! i) val")
    case False
    then have "col_note_count b i val js col_count row = (k, row')" using Cons.prems(4) by simp
    then show ?thesis using Cons.IH[of col_count row] Cons.prems by simp
  next
    case True
    show ?thesis
    proof (cases "col_count + 1 > 1")
      case t: True
      then show ?thesis using Cons.prems(4) True j by auto
    next
      case False
      then have "col_note_count b i val js (col_count + 1) (Some j) = (k, row')"
        using Cons.prems(4) True by simp
      then show ?thesis using Cons.IH[of "col_count + 1" "Some j"] Cons.prems j by simp
    qed
  qed
qed

lemma hidden_col_one:
  assumes "i < size_b b" "0 < val" "val \<le> size_b b"
  shows "one_insert b (hidden_col (size_b b) val i b)"
proof (cases "col_note_count b i val [0..<size_b b] 0 None")
  case (Pair k row')
  show ?thesis
  proof (cases "\<not> heatmap_check (cols b ! i) val \<and> k = 1")
    case False
    then show ?thesis using Pair by (auto simp: hidden_col_def)
  next
    case True
    obtain r where r: "r < size_b b" "row' = Some r"
      using col_note_count_row[where sz = "size_b b", OF _ _ _ Pair] True by auto
    have "one_insert b (insert_discard b (r + 1) (i + 1) val)"
      by (rule insert_discard_one) (use assms r in simp_all)
    then show ?thesis using True Pair r by (simp add: hidden_col_def)
  qed
qed

lemma box_note_row_cell:
  assumes "j < sz" "\<forall>k\<in>set ks. k < sz" "0 \<le> fst acc"
    "fst acc \<ge> 1 \<longrightarrow> (\<exists>r < sz. \<exists>c < sz. snd acc = Some (r, c))"
  shows "0 \<le> fst (box_note_row b val j ks acc) \<and>
         (fst (box_note_row b val j ks acc) \<ge> 1 \<longrightarrow>
            (\<exists>r < sz. \<exists>c < sz. snd (box_note_row b val j ks acc) = Some (r, c)))"
  using assms(2-) unfolding box_note_row_def
proof (induction ks arbitrary: acc)
  case Nil
  then show ?case by simp
next
  case (Cons k ks)
  obtain n cl where acc: "acc = (n, cl)" by (cases acc)
  define acc' where "acc' = (if heatmap_check (notes_b b ! j ! k) val then (n + 1, Some (j, k))
     else (n, cl))"
  have k: "k < sz" using Cons.prems(1) by simp
  have 1: "0 \<le> fst acc'" "fst acc' \<ge> 1 \<longrightarrow> (\<exists>r < sz. \<exists>c < sz. snd acc' = Some (r, c))"
    using Cons.prems(2,3) assms(1) k by (auto simp: acc'_def acc)
  have "\<forall>k\<in>set ks. k < sz" using Cons.prems(1) by simp
  from Cons.IH[OF this 1] show ?case by (simp add: acc acc'_def)
qed

lemma box_note_count_cell:
  assumes "\<forall>j\<in>set js. j < sz" "\<forall>k\<in>set ks. k < sz" "0 \<le> fst acc"
    "fst acc \<ge> 1 \<longrightarrow> (\<exists>r < sz. \<exists>c < sz. snd acc = Some (r, c))"
  shows "fst (box_note_count b val js ks acc) \<ge> 1 \<longrightarrow>
            (\<exists>r < sz. \<exists>c < sz. snd (box_note_count b val js ks acc) = Some (r, c))"
  using assms(1,3,4)
proof (induction js arbitrary: acc)
  case Nil
  then show ?case by simp
next
  case (Cons j js)
  define acc' where "acc' = box_note_row b val j ks acc"
  have j: "j < sz" using Cons.prems(1) by simp
  have 1: "0 \<le> fst acc'" "fst acc' \<ge> 1 \<longrightarrow> (\<exists>r < sz. \<exists>c < sz. snd acc' = Some (r, c))"
    using box_note_row_cell[OF j assms(2) Cons.prems(2,3)] by (simp_all add: acc'_def)
  show ?case
  proof (cases "fst acc' > 1")
    case True
    then show ?thesis using 1 by (simp add: acc'_def[symmetric] Let_def)
  next
    case False
    have "\<forall>j\<in>set js. j < sz" using Cons.prems(1) by simp
    from Cons.IH[OF this 1] False show ?thesis by (simp add: acc'_def[symmetric] Let_def)
  qed
qed

lemma hidden_box_one:
  assumes wf: "board_wf b" and i: "i < size_b b" and v: "0 < val" "val \<le> size_b b"
  shows "one_insert b (hidden_box (size_b b) val i b)"
proof -
  define n where "n = size_b b"
  define root where "root = int_sqrt n"
  define rs where "rs = [root * (i div root)..<root * (i div root) + root]"
  define cs where "cs = [root * (i mod root)..<root * (i mod root) + root]"
  have rng: "r < n \<and> c < n \<and> box_of b r c = i" if "r \<in> set rs" "c \<in> set cs" for r c
    using box_range[OF wf i, of r c] that by (simp add: rs_def cs_def root_def n_def)
  have root0: "0 < root" using root_pos[OF wf] by (simp add: root_def n_def)
  have ne: "root * (i div root) \<in> set rs" "root * (i mod root) \<in> set cs"
    using root0 by (simp_all add: rs_def cs_def)
  have rr: "\<forall>r\<in>set rs. r < n" using rng[OF _ ne(2)] by simp
  have cc: "\<forall>c\<in>set cs. c < n" using rng[OF ne(1)] by simp
  obtain k cl where res: "box_note_count b val rs cs (0, None) = (k, cl)"
    by (cases "box_note_count b val rs cs (0, None)")
  have hb: "hidden_box n val i b =
      (if \<not> heatmap_check (boxs b ! i) val
       then if k = 1 then (case cl of None \<Rightarrow> Failed
                           | Some (r, c) \<Rightarrow> insert_discard b (r + 1) (c + 1) val)
            else Running b
       else Running b)"
    using res by (simp add: hidden_box_def Let_def rs_def cs_def root_def)
  show ?thesis
  proof (cases "\<not> heatmap_check (boxs b ! i) val \<and> k = 1")
    case False
    then show ?thesis unfolding n_def[symmetric] hb by auto
  next
    case True
    have "fst (box_note_count b val rs cs (0, None)) \<ge> 1 \<longrightarrow>
            (\<exists>r < n. \<exists>c < n. snd (box_note_count b val rs cs (0, None)) = Some (r, c))"
      by (rule box_note_count_cell[OF rr cc]) simp_all
    then obtain r c where rc: "r < n" "c < n" "cl = Some (r, c)" using res True by auto
    have "one_insert b (insert_discard b (r + 1) (c + 1) val)"
      by (rule insert_discard_one) (use v rc in \<open>simp_all add: n_def\<close>)
    then show ?thesis unfolding n_def[symmetric] hb using True rc by simp
  qed
qed

section \<open>The propagation does not stop at a failed assertion\<close>

lemma flow_fold_safe:
  assumes "P b"
    and "\<And>x b'. x \<in> set xs \<Longrightarrow> P b' \<Longrightarrow>
           f x b' \<noteq> Failed \<and> (\<forall>b''. f x b' = Running b'' \<longrightarrow> P b'')"
  shows "flow_fold f xs b \<noteq> Failed \<and> (\<forall>b''. flow_fold f xs b = Running b'' \<longrightarrow> P b'')"
  using assms
proof (induction xs arbitrary: b)
  case Nil
  then show ?case by simp
next
  case (Cons x xs)
  have "f x b \<noteq> Failed \<and> (\<forall>b''. f x b = Running b'' \<longrightarrow> P b'')"
    by (rule Cons.prems(2)) (use Cons.prems(1) in simp_all)
  then have 1: "f x b \<noteq> Failed" "\<And>b''. f x b = Running b'' \<Longrightarrow> P b''"
    by blast+
  show ?case
  proof (cases "f x b")
    case Failed
    then show ?thesis using 1 by simp
  next
    case (Returned r b1)
    then show ?thesis by simp
  next
    case (Running b1)
    have "flow_fold f xs b1 \<noteq> Failed \<and> (\<forall>b''. flow_fold f xs b1 = Running b'' \<longrightarrow> P b'')"
    proof (rule Cons.IH)
      show "P b1" by (rule 1(2)[OF Running])
      fix y b' assume "y \<in> set xs" "P b'"
      then show "f y b' \<noteq> Failed \<and> (\<forall>b''. f y b' = Running b'' \<longrightarrow> P b'')"
        using Cons.prems(2)[of y b'] by simp
    qed
    then show ?thesis using Running by simp
  qed
qed

lemma flow_ok_keeps:
  assumes "board_inv b" "flow_ok sz b (Running b')"
  shows "board_inv b' \<and> size_b b' = size_b b"
proof -
  have "inserts_to b b'" using assms(2) by simp
  from inserts_to_evolves[OF this assms(1)] show ?thesis by (simp add: evolves_def)
qed

lemma flow_ok_stage:
  assumes "board_inv b \<and> size_b b = n" "fl \<noteq> Failed" "flow_ok n b fl"
  shows "fl \<noteq> Failed \<and> (\<forall>b''. fl = Running b'' \<longrightarrow> board_inv b'' \<and> size_b b'' = n)"
proof (intro conjI allI impI)
  show "fl \<noteq> Failed" by fact
  fix b'' assume "fl = Running b''"
  then have "flow_ok n b (Running b'')" using assms(3) by simp
  from flow_ok_keeps[OF _ this] assms(1) show "board_inv b''" "size_b b'' = n" by simp_all
qed

lemma solve_unit_safe:
  assumes inv: "board_inv b" and i: "i < size_b b"
  shows "solve_unit (size_b b) i b \<noteq> Failed"
proof -
  define n where "n = size_b b"
  define P where "P b' = (board_inv b' \<and> size_b b' = n)" for b'
  have stage: "fl \<noteq> Failed \<and> (\<forall>b''. fl = Running b'' \<longrightarrow> P b'')"
    if "P b'" "fl \<noteq> Failed" "flow_ok n b' fl" for b' fl
    using flow_ok_stage[of b' n fl] that unfolding P_def by blast
  have "flow_fold (\<lambda>stage. stage)
       [rule_value n i, rule_row n i, rule_col n i, rule_box n i,
        flow_fold (single_cell n i) [0..<n],
        flow_fold (hidden_unit n) (List.product [1..<n + 1] [0..<n])] b \<noteq> Failed \<and>
     (\<forall>b''. flow_fold (\<lambda>stage. stage)
       [rule_value n i, rule_row n i, rule_col n i, rule_box n i,
        flow_fold (single_cell n i) [0..<n],
        flow_fold (hidden_unit n) (List.product [1..<n + 1] [0..<n])] b = Running b'' \<longrightarrow> P b'')"
  proof (rule flow_fold_safe[where P = P])
    show "P b" using inv by (simp add: P_def n_def)
    fix x b'
    assume x: "x \<in> set [rule_value n i, rule_row n i, rule_col n i, rule_box n i,
        flow_fold (single_cell n i) [0..<n],
        flow_fold (hidden_unit n) (List.product [1..<n + 1] [0..<n])]" and p: "P b'"
    have inv': "board_inv b'" and sz: "size_b b' = n" using p by (simp_all add: P_def)
    have wf': "board_wf b'" using inv' by (rule board_inv_wf)
    have i': "i < size_b b'" using i sz by (simp add: n_def)
    from x consider "x = rule_value n i" | "x = rule_row n i" | "x = rule_col n i"
      | "x = rule_box n i" | "x = flow_fold (single_cell n i) [0..<n]"
      | "x = flow_fold (hidden_unit n) (List.product [1..<n + 1] [0..<n])"
      by auto
    then show "x b' \<noteq> Failed \<and> (\<forall>b''. x b' = Running b'' \<longrightarrow> P b'')"
    proof cases
      case 1
      have "one_insert b' (rule_value n i b')" using rule_value_one[OF i'] sz by simp
      then have "rule_value n i b' \<noteq> Failed" by (rule one_insert_not_Failed)
      moreover have "flow_ok n b' (rule_value n i b')" by simp
      ultimately show ?thesis unfolding 1 by (rule stage[OF p])
    next
      case 2
      have "one_insert b' (rule_row n i b')" using rule_row_one[OF i'] sz by simp
      then have "rule_row n i b' \<noteq> Failed" by (rule one_insert_not_Failed)
      moreover have "flow_ok n b' (rule_row n i b')" by simp
      ultimately show ?thesis unfolding 2 by (rule stage[OF p])
    next
      case 3
      have "one_insert b' (rule_col n i b')" using rule_col_one[OF i'] sz by simp
      then have "rule_col n i b' \<noteq> Failed" by (rule one_insert_not_Failed)
      moreover have "flow_ok n b' (rule_col n i b')" by simp
      ultimately show ?thesis unfolding 3 by (rule stage[OF p])
    next
      case 4
      have "one_insert b' (rule_box n i b')" using rule_box_one[OF wf' i'] sz by simp
      then have "rule_box n i b' \<noteq> Failed" by (rule one_insert_not_Failed)
      moreover have "flow_ok n b' (rule_box n i b')" by simp
      ultimately show ?thesis unfolding 4 by (rule stage[OF p])
    next
      case 5
      show ?thesis unfolding 5
      proof (rule flow_fold_safe[where P = P])
        show "P b'" by (rule p)
        fix j b1 assume j: "j \<in> set [0..<n]" and p1: "P b1"
        have inv1: "board_inv b1" and sz1: "size_b b1 = n" using p1 by (simp_all add: P_def)
        have "one_insert b1 (single_cell n i j b1) \<or> single_cell n i j b1 = Returned 1 b1"
          using single_cell_one[OF board_inv_wf[OF inv1], of i j] i j sz1 by (simp add: n_def)
        then have "single_cell n i j b1 \<noteq> Failed"
          using one_insert_not_Failed[of b1 "single_cell n i j b1"] by auto
        moreover have "flow_ok n b1 (single_cell n i j b1)"
          by (rule single_cell_ok) (use i j in \<open>simp_all add: n_def\<close>)
        ultimately show "single_cell n i j b1 \<noteq> Failed \<and>
            (\<forall>b''. single_cell n i j b1 = Running b'' \<longrightarrow> P b'')"
          using stage[OF p1] by blast
      qed
    next
      case 6
      show ?thesis unfolding 6
      proof (rule flow_fold_safe[where P = P])
        show "P b'" by (rule p)
        fix x b1 assume x: "x \<in> set (List.product [1..<n + 1] [0..<n])" and p1: "P b1"
        obtain val k where xv: "x = (val, k)" by (cases x)
        have v: "0 < val" "val \<le> n" "k < n" using x xv by auto
        have hu: "hidden_unit n x b1 =
            flow_fold (\<lambda>rule. rule n val k) [hidden_row, hidden_col, hidden_box] b1"
          by (simp add: hidden_unit_def xv)
        show "hidden_unit n x b1 \<noteq> Failed \<and> (\<forall>b''. hidden_unit n x b1 = Running b'' \<longrightarrow> P b'')"
          unfolding hu
        proof (rule flow_fold_safe[where P = P])
          show "P b1" by (rule p1)
          fix rule b2 assume r: "rule \<in> set [hidden_row, hidden_col, hidden_box]" and p2: "P b2"
          have inv2: "board_inv b2" and sz2: "size_b b2 = n" using p2 by (simp_all add: P_def)
          have wf2: "board_wf b2" using inv2 by (rule board_inv_wf)
          have "one_insert b2 (hidden_row n val k b2)" "one_insert b2 (hidden_col n val k b2)"
            "one_insert b2 (hidden_box n val k b2)"
            using hidden_row_one[of k b2 val] hidden_col_one[of k b2 val]
              hidden_box_one[OF wf2, of k val] v sz2 by simp_all
          then have "hidden_row n val k b2 \<noteq> Failed" "hidden_col n val k b2 \<noteq> Failed"
            "hidden_box n val k b2 \<noteq> Failed"
            by (simp_all add: one_insert_not_Failed)
          moreover have "rule = hidden_row \<or> rule = hidden_col \<or> rule = hidden_box"
            using r by simp
          ultimately have nf: "rule n val k b2 \<noteq> Failed" by blast
          have "flow_ok n b2 (rule n val k b2)"
            using \<open>rule = hidden_row \<or> rule = hidden_col \<or> rule = hidden_box\<close> by auto
          then show "rule n val k b2 \<noteq> Failed \<and> (\<forall>b''. rule n val k b2 = Running b'' \<longrightarrow> P b'')"
            using stage[OF p2 nf] by blast
        qed
      qed
    qed
  qed
  then show ?thesis by (simp add: solve_unit_def n_def)
qed

lemma solve_round_safe:
  assumes inv: "board_inv b"
  shows "solve_round (size_b b) b \<noteq> Failed"
proof -
  define n where "n = size_b b"
  define P where "P b' = (board_inv b' \<and> size_b b' = n)" for b'
  have "flow_fold (solve_unit n) [0..<n] b \<noteq> Failed \<and>
     (\<forall>b''. flow_fold (solve_unit n) [0..<n] b = Running b'' \<longrightarrow> P b'')"
  proof (rule flow_fold_safe[where P = P])
    show "P b" using inv by (simp add: P_def n_def)
    fix i b' assume i: "i \<in> set [0..<n]" and p: "P b'"
    have inv': "board_inv b'" and sz: "size_b b' = n" using p by (simp_all add: P_def)
    have "solve_unit n i b' \<noteq> Failed" using solve_unit_safe[OF inv', of i] i sz by simp
    moreover have "flow_ok n b' (solve_unit n i b')" by (rule solve_unit_ok) (use i in simp)
    ultimately show "solve_unit n i b' \<noteq> Failed \<and> (\<forall>b''. solve_unit n i b' = Running b'' \<longrightarrow> P b'')"
      using flow_ok_stage[of b' n "solve_unit n i b'"] inv' sz unfolding P_def by blast
  qed
  then show ?thesis by (simp add: solve_round_def n_def)
qed

lemma solve_rounds_safe: "board_inv b \<Longrightarrow> sz = size_b b \<Longrightarrow> solve_rounds sz b \<noteq> Failed"
proof (induction sz b rule: solve_rounds.induct)
  case (1 sz b)
  show ?case
  proof (cases "total_appearances b < int (sz * sz)")
    case False
    then show ?thesis by (simp add: solve_rounds.simps[of sz b])
  next
    case True
    have nf: "solve_round sz b \<noteq> Failed" using solve_round_safe[OF "1.prems"(1)] "1.prems"(2) by simp
    show ?thesis
    proof (cases "solve_round sz b")
      case Failed
      then show ?thesis using nf by simp
    next
      case (Returned r b1)
      then show ?thesis using True by (simp add: solve_rounds.simps[of sz b])
    next
      case (Running b1)
      have k: "board_inv b1 \<and> size_b b1 = size_b b"
        using flow_ok_keeps[OF "1.prems"(1), of sz b1] solve_round_ok[of sz b] Running by simp
      show ?thesis
      proof (cases "total_appearances b < total_appearances b1")
        case t: True
        have "solve_rounds sz b1 \<noteq> Failed"
          by (rule "1.IH"[OF True Running t]) (use k "1.prems"(2) in simp_all)
        then show ?thesis using True Running t by (simp add: solve_rounds.simps[of sz b])
      next
        case False
        then show ?thesis using True Running by (simp add: solve_rounds.simps[of sz b])
      qed
    qed
  qed
qed

text \<open>
  C10. Inside \<open>board_solve\<close> the status of \<open>board_insert\<close> is dropped at every one of
  the eight insertions of the propagation (board.c:358, 374, 390, 412, 425, 452, 467,
  489). On a board whose arrays have the right lengths and whose heatmap counts are
  right, each deduction rule goes on, and leaves either the board as it was (it had
  nothing to insert, or \<open>board_insert\<close> refused with status 1 or 2) or the board after
  one insertion that \<open>board_insert\<close> accepted; the rule for the squares may also return 1
  at an empty square without notes. No rule stops at a failed assertion or returns
  because an insertion was refused, a refused insertion leaves the board as it was, and
  on a board that satisfies the invariants a whole round, and the whole propagation,
  does not stop either.
\<close>

theorem insert_status_discarded:
  assumes "board_wf b" and "i < size_b b" and "j < size_b b" and "0 < val" and "val \<le> size_b b"
  shows "one_insert b (rule_value (size_b b) i b) \<and>
         one_insert b (rule_row (size_b b) i b) \<and>
         one_insert b (rule_col (size_b b) i b) \<and>
         one_insert b (rule_box (size_b b) i b) \<and>
         (one_insert b (single_cell (size_b b) i j b) \<or>
          single_cell (size_b b) i j b = Returned 1 b) \<and>
         one_insert b (hidden_row (size_b b) val i b) \<and>
         one_insert b (hidden_col (size_b b) val i b) \<and>
         one_insert b (hidden_box (size_b b) val i b) \<and>
         (\<forall>row col v st b'. board_insert b row col v = Some (st, b') \<longrightarrow>
            insert_discard b row col v = Running b' \<and> (st \<noteq> 0 \<longrightarrow> b' = b)) \<and>
         (board_inv b \<longrightarrow>
            solve_round (size_b b) b \<noteq> Failed \<and> solve_rounds (size_b b) b \<noteq> Failed)"
proof -
  have "insert_discard b row col v = Running b' \<and> (st \<noteq> 0 \<longrightarrow> b' = b)"
    if "board_insert b row col v = Some (st, b')" for row col v st b'
    using that board_insert_cases[OF that] by (auto simp: insert_discard_def)
  then show ?thesis
    using rule_value_one[OF assms(2)] rule_row_one[OF assms(2)] rule_col_one[OF assms(2)]
      rule_box_one[OF assms(1,2)] single_cell_one[OF assms(1,2,3)]
      hidden_row_one[OF assms(2,4,5)] hidden_col_one[OF assms(2,4,5)]
      hidden_box_one[OF assms(1,2,4,5)] solve_round_safe[of b] solve_rounds_safe[of b "size_b b"]
    by blast
qed

theorem insert_status_discarded_witness:
  "board_insert board_u 1 4 4 = Some (2, board_u) \<and>
   count (rows board_u ! 0) = 3 \<and>
   rule_row (size_b board_u) 0 board_u = Running board_u \<and>
   one_insert board_u (rule_box (size_b board_u) 0 board_u) \<and>
   one_insert board_u (hidden_box (size_b board_u) 4 0 board_u) \<and>
   solve_rounds (size_b board_u) board_u \<noteq> Failed \<and>
   board_insert board_v 4 4 1 = Some (1, board_v) \<and>
   appearances board_v ! 0 = 3 \<and>
   rule_value (size_b board_v) 0 board_v = Running board_v"
proof -
  have wf: "board_wf board_u" using board_u_inv by (rule board_inv_wf)
  have r: "0 < size_b board_u" "3 < size_b board_u" "4 \<le> size_b board_u" by code_simp+
  note t = insert_status_discarded[OF wf r(1) r(2) _ r(3)]
  have 1: "one_insert board_u (rule_box (size_b board_u) 0 board_u)"
    using t by simp
  have 2: "one_insert board_u (hidden_box (size_b board_u) 4 0 board_u)"
    using t by simp
  have 3: "solve_rounds (size_b board_u) board_u \<noteq> Failed"
    using t board_u_inv by simp
  have "board_insert board_u 1 4 4 = Some (2, board_u)" "count (rows board_u ! 0) = 3"
    "rule_row (size_b board_u) 0 board_u = Running board_u"
    "board_insert board_v 4 4 1 = Some (1, board_v)" "appearances board_v ! 0 = 3"
    "rule_value (size_b board_v) 0 board_v = Running board_v"
    by code_simp+
  then show ?thesis using 1 2 3 by simp
qed

section \<open>Fuel\<close>

text \<open>A result does not depend on the fuel: more fuel gives the same result.\<close>

lemma add_runs_fuel [simp]: "add_runs k out = Out_of_fuel \<longleftrightarrow> out = Out_of_fuel"
  by (cases out) simp_all

lemma fuel_Suc_both:
  "(\<forall>b n. board_solve f b n \<noteq> Out_of_fuel \<longrightarrow> board_solve (Suc f) b n = board_solve f b n) \<and>
   (\<forall>sz b nb n. guess_loop f sz b nb n \<noteq> Out_of_fuel \<longrightarrow>
      guess_loop (Suc f) sz b nb n = guess_loop f sz b nb n)"
proof (induction f)
  case 0
  show ?case by simp
next
  case (Suc f)
  have IHs: "board_solve (Suc f) b n = board_solve f b n"
    if "board_solve f b n \<noteq> Out_of_fuel" for b n
    using Suc that by blast
  have IHl: "guess_loop (Suc f) sz b nb n = guess_loop f sz b nb n"
    if "guess_loop f sz b nb n \<noteq> Out_of_fuel" for sz b nb n
    using Suc that by blast
  show ?case
  proof (intro conjI allI impI)
    fix b n assume a: "board_solve (Suc f) b n \<noteq> Out_of_fuel"
    show "board_solve (Suc (Suc f)) b n = board_solve (Suc f) b n"
    proof (cases "solve_rounds (board_get_size b) (board_make_notes b)")
      case Failed
      then show ?thesis by simp
    next
      case (Returned r b1)
      then show ?thesis by simp
    next
      case (Running b1)
      show ?thesis
      proof (cases "total_appearances b1 \<ge> int (board_get_size b * board_get_size b)")
        case True
        then show ?thesis using Running by simp
      next
        case False
        show ?thesis
        proof (cases "board_create (board_get_size b)")
          case None
          then show ?thesis using Running False by simp
        next
          case (Some new_b)
          have "guess_loop f (board_get_size b) b1 new_b n \<noteq> Out_of_fuel"
            using a Running False Some by simp
          from IHl[OF this] show ?thesis using Running False Some by simp
        qed
      qed
    qed
  next
    fix sz b nb n assume a: "guess_loop (Suc f) sz b nb n \<noteq> Out_of_fuel"
    show "guess_loop (Suc (Suc f)) sz b nb n = guess_loop (Suc f) sz b nb n"
    proof (cases "board_copy nb b")
      case None
      then show ?thesis by simp
    next
      case (Some nb1)
      show ?thesis
      proof (cases "guess_scan sz (guess_order sz) nb1")
        case Scan_return
        then show ?thesis using Some by simp
      next
        case Scan_failed
        then show ?thesis using Some by simp
      next
        case (Scan_done nb2 guess)
        have nf: "board_solve f nb2 (n + 1) \<noteq> Out_of_fuel"
          using a Some Scan_done by (auto split: outcome.splits)
        have e: "board_solve (Suc f) nb2 (n + 1) = board_solve f nb2 (n + 1)"
          by (rule IHs[OF nf])
        show ?thesis
        proof (cases "board_solve f nb2 (n + 1)")
          case Out_of_fuel
          then show ?thesis using nf by simp
        next
          case Abort
          then show ?thesis using Some Scan_done e by simp
        next
          case (Ret r nb3 k)
          show ?thesis
          proof (cases "r = 1 \<and> guess \<noteq> None")
            case False
            then show ?thesis using Some Scan_done e Ret by (auto split: option.splits)
          next
            case True
            then obtain row col val where g: "guess = Some (row, col, val)" by auto
            have "guess_loop f sz (b\<lparr>notes_b := notes_off row col val (notes_b b)\<rparr>) nb3 n
                \<noteq> Out_of_fuel"
              using a Some Scan_done Ret True g by simp
            from IHl[OF this] show ?thesis using Some Scan_done e Ret True g by simp
          qed
        qed
      qed
    qed
  qed
qed

lemma board_solve_fuel:
  assumes "board_solve f b n \<noteq> Out_of_fuel" "f \<le> f'"
  shows "board_solve f' b n = board_solve f b n"
  using assms(2,1)
proof (induction f' rule: dec_induct)
  case base
  show ?case by simp
next
  case (step k)
  then show ?case using fuel_Suc_both[of k] by simp
qed

lemma guess_loop_fuel:
  assumes "guess_loop f sz b nb n \<noteq> Out_of_fuel" "f \<le> f'"
  shows "guess_loop f' sz b nb n = guess_loop f sz b nb n"
  using assms(2,1)
proof (induction f' rule: dec_induct)
  case base
  show ?case by simp
next
  case (step k)
  then show ?case using fuel_Suc_both[of k] by simp
qed

section \<open>The scan for a guess on a board that is neither empty nor full\<close>

lemma first_note_None: "first_note h ks = None \<longleftrightarrow> (\<forall>k \<in> set ks. \<not> heatmap_check h k)"
  by (induction ks) auto

lemma first_note_Some:
  assumes "heatmap_wf sz h" "count h \<noteq> 0"
  shows "first_note h [1..<sz + 1] \<noteq> None"
proof -
  obtain v where "0 < v" "v \<le> sz" "heatmap_check h v"
    using heatmap_count_zero_iff[OF assms(1)] assms(2) by auto
  moreover from this have "v \<in> set [1..<sz + 1]" by auto
  ultimately show ?thesis unfolding first_note_None by blast
qed

lemma heatmap_count_range:
  assumes "heatmap_wf n h"
  shows "0 \<le> count h" "count h \<le> int n"
    and "0 < v \<Longrightarrow> v \<le> n \<Longrightarrow> \<not> heatmap_check h v \<Longrightarrow> count h < int n"
proof -
  have c: "count h = int (trues (map_h h))" and l: "length (map_h h) = n"
    using assms by (simp_all add: heatmap_wf_def)
  show "0 \<le> count h" using c by simp
  have "trues (map_h h) \<le> length (map_h h)" unfolding trues_def by (rule length_filter_le)
  then show "count h \<le> int n" using c l by simp
  assume v: "0 < v" "v \<le> n" "\<not> heatmap_check h v"
  have "map_h h ! (v - 1) \<in> set (map_h h)" by (rule nth_mem) (use v l in simp)
  moreover have "\<not> map_h h ! (v - 1)" using v by (simp add: heatmap_check_def)
  ultimately have "length (filter (\<lambda>x. x) (map_h h)) < length (map_h h)"
    by (intro filter_length_less[where x = "map_h h ! (v - 1)"])
  then show "count h < int n" using c l by (simp add: trues_def)
qed

lemma guess_scan_not_failed:
  assumes "\<forall>(np, i, j) \<in> set ts. i < size_b nb \<and> j < size_b nb" "sz = size_b nb"
  shows "guess_scan sz ts nb \<noteq> Scan_failed"
  using assms(1)
proof (induction ts)
  case Nil
  then show ?case by simp
next
  case (Cons t ts)
  obtain np i j where t: "t = (np, i, j)" by (cases t)
  have ij: "i < size_b nb" "j < size_b nb" using Cons.prems t by auto
  have rest: "guess_scan sz ts nb \<noteq> Scan_failed" using Cons by simp
  show ?case
  proof (cases "first_note (notes_b nb ! i ! j) [1..<sz + 1]")
    case None
    then show ?thesis using rest t by simp
  next
    case (Some k)
    then have "0 < k" "k \<le> size_b nb" using first_note_mem[OF Some] assms(2) by auto
    then obtain st b1 where "board_insert nb (i + 1) (j + 1) k = Some (st, b1)"
      using board_insert_Some[of "i + 1" nb "j + 1" k] ij by auto
    then show ?thesis using rest t Some by simp
  qed
qed

lemma guess_scan_None:
  assumes "guess_scan sz ts nb = Scan_done nb' None" "(np, i, j) \<in> set ts"
  shows "\<not> (count (notes_b nb ! i ! j) = int np \<and>
            first_note (notes_b nb ! i ! j) [1..<sz + 1] \<noteq> None) \<and>
         \<not> (count (notes_b nb ! i ! j) \<noteq> int np \<and> data nb ! i ! j = 0 \<and>
            count (notes_b nb ! i ! j) = 0)"
  using assms
proof (induction ts)
  case Nil
  then show ?case by simp
next
  case (Cons t ts)
  obtain np' i' j' where t: "t = (np', i', j')" by (cases t)
  have 1: "\<not> (count (notes_b nb ! i' ! j') = int np' \<and>
            first_note (notes_b nb ! i' ! j') [1..<sz + 1] \<noteq> None) \<and>
         \<not> (count (notes_b nb ! i' ! j') \<noteq> int np' \<and> data nb ! i' ! j' = 0 \<and>
            count (notes_b nb ! i' ! j') = 0)"
    using Cons.prems(1) t by (auto split: option.splits if_splits)
  then have 2: "guess_scan sz ts nb = Scan_done nb' None"
    using Cons.prems(1) t by (auto split: option.splits if_splits)
  show ?case
  proof (cases "(np, i, j) = t")
    case True
    then show ?thesis using 1 t by simp
  next
    case False
    then have "(np, i, j) \<in> set ts" using Cons.prems(2) by simp
    then show ?thesis using Cons.IH[OF 2] by simp
  qed
qed

text \<open>
  On a board that holds a number and has an empty cell, some empty cell is in a unit
  with a number, so it has fewer than \<open>size\<close> notes.
\<close>

lemma filter_all: "length (filter P xs) = length xs \<Longrightarrow> x \<in> set xs \<Longrightarrow> P x"
  by (metis filter_length_less less_irrefl)

lemma exists_filled:
  assumes "board_inv b" "0 < total_appearances b"
  shows "\<exists>r < size_b b. \<exists>c < size_b b. cell b r c \<noteq> 0"
proof -
  have "total_appearances b = int (count_cells b (\<lambda>x. x \<noteq> 0))"
    using assms(1) by (simp add: board_inv_def board_core_def counts_ok_def)
  then have "filter (\<lambda>(r, c). cell b r c \<noteq> 0) (cells_of (size_b b)) \<noteq> []"
    using assms(2) by (auto simp: count_cells_def)
  then obtain p where "p \<in> set (cells_of (size_b b))" "(\<lambda>(r, c). cell b r c \<noteq> 0) p"
    by (metis filter_False)
  moreover obtain r c where "p = (r, c)" by (cases p)
  ultimately have "r < size_b b" "c < size_b b" "cell b r c \<noteq> 0" by simp_all
  then show ?thesis by blast
qed

lemma exists_empty:
  assumes "board_inv b" "total_appearances b < int (size_b b * size_b b)"
  shows "\<exists>r < size_b b. \<exists>c < size_b b. cell b r c = 0"
proof (rule ccontr)
  assume "\<not> ?thesis"
  then have "filter (\<lambda>(r, c). cell b r c \<noteq> 0) (cells_of (size_b b)) = cells_of (size_b b)"
    by (auto simp: filter_id_conv)
  then have "count_cells b (\<lambda>x. x \<noteq> 0) = size_b b * size_b b"
    by (simp add: count_cells_def)
  moreover have "total_appearances b = int (count_cells b (\<lambda>x. x \<noteq> 0))"
    using assms(1) by (simp add: board_inv_def board_core_def counts_ok_def)
  ultimately show False using assms(2) by simp
qed

lemma exists_short_cell:
  assumes inv: "board_inv b" and pos: "0 < total_appearances b"
    and nf: "total_appearances b < int (size_b b * size_b b)"
  shows "\<exists>r < size_b b. \<exists>c < size_b b.
           cell b r c = 0 \<and> count (notes_b b ! r ! c) < int (size_b b)"
proof -
  define n where "n = size_b b"
  have wf: "board_wf b" using inv by (rule board_inv_wf)
  have uo: "used_ok b" and vo: "values_ok b" and ns: "notes_sound b"
    using inv by (simp_all add: board_inv_def board_core_def)
  obtain r0 c0 where f: "r0 < n" "c0 < n" "cell b r0 c0 \<noteq> 0"
    using exists_filled[OF inv pos] by (auto simp: n_def)
  obtain r1 c1 where e: "r1 < n" "c1 < n" "cell b r1 c1 = 0"
    using exists_empty[OF inv nf] by (auto simp: n_def)
  have short: "count (notes_b b ! r ! c) < int n"
    if "r < n" "c < n" "0 < v" "v \<le> n" "\<not> has_note b r c v" for r c v
  proof -
    have "heatmap_wf n (notes_b b ! r ! c)"
      using wf that by (simp add: board_wf_def notes_wf_def n_def)
    from heatmap_count_range(3)[OF this that(3,4)] that(5) show ?thesis
      by (simp add: has_note_def)
  qed
  have off: "\<not> has_note b r c v"
    if "r < n" "c < n" "0 < v" "v \<le> n" "used_row b r v \<or> used_col b c v" for r c v
    using ns that unfolding notes_sound_def n_def by blast
  show ?thesis
  proof (cases "cell b r1 c0 = 0")
    case True
    define v where "v = cell b r0 c0"
    have v: "0 < v" "v \<le> n" using f vo by (auto simp: v_def values_ok_def n_def)
    have "used_col b c0 v"
      by (rule used_of_cell(2)[OF wf uo, of r0]) (use f v in \<open>simp_all add: v_def n_def\<close>)
    then have "\<not> has_note b r1 c0 v" using off[of r1 c0 v] e f v by simp
    then have "count (notes_b b ! r1 ! c0) < int n" using short[of r1 c0 v] e f v by simp
    then show ?thesis using True e f unfolding n_def by blast
  next
    case False
    define v where "v = cell b r1 c0"
    have v: "0 < v" "v \<le> n" using False e f vo by (auto simp: v_def values_ok_def n_def)
    have "used_row b r1 v"
      by (rule used_of_cell(1)[OF wf uo, of _ c0]) (use e f v in \<open>simp_all add: v_def n_def\<close>)
    then have "\<not> has_note b r1 c1 v" using off[of r1 c1 v] e v by simp
    then have "count (notes_b b ! r1 ! c1) < int n" using short[of r1 c1 v] e v by simp
    then show ?thesis using e unfolding n_def by blast
  qed
qed

lemma guess_scan_guess:
  assumes inv: "board_inv b" and pos: "0 < total_appearances b"
    and nf: "total_appearances b < int (size_b b * size_b b)"
  shows "guess_scan (size_b b) (guess_order (size_b b)) b \<noteq> Scan_done nb' None"
proof
  define n where "n = size_b b"
  assume a: "guess_scan (size_b b) (guess_order (size_b b)) b = Scan_done nb' None"
  have wf: "board_wf b" using inv by (rule board_inv_wf)
  obtain r c where rc: "r < n" "c < n" "cell b r c = 0" "count (notes_b b ! r ! c) < int n"
    using exists_short_cell[OF inv pos nf] by (auto simp: n_def)
  have hw: "heatmap_wf n (notes_b b ! r ! c)"
    using wf rc by (simp add: board_wf_def notes_wf_def n_def)
  have c0: "0 \<le> count (notes_b b ! r ! c)" by (rule heatmap_count_range(1)[OF hw])
  have n2: "1 < n"
  proof (rule ccontr)
    assume "\<not> 1 < n"
    then have "n * n \<le> 1" by (cases n) auto
    then show False using pos nf by (simp add: n_def)
  qed
  show False
  proof (cases "count (notes_b b ! r ! c) = 0")
    case True
    have "(1, r, c) \<in> set (guess_order n)" using rc n2 by (simp add: guess_order_def)
    from guess_scan_None[OF a[folded n_def] this] True rc(3) show False
      by (simp add: cell_def)
  next
    case False
    define m where "m = nat (count (notes_b b ! r ! c))"
    have m: "int m = count (notes_b b ! r ! c)" "1 \<le> m" "m < n"
      using c0 False rc(4) by (simp_all add: m_def)
    have "(m, r, c) \<in> set (guess_order n)" using rc m by (simp add: guess_order_def)
    from guess_scan_None[OF a[folded n_def] this] m(1) first_note_Some[OF hw False]
    show False by simp
  qed
qed

section \<open>\<open>board_solve\<close> returns on every board that holds a number\<close>

text \<open>
  Two measures: the number of empty cells, which every recursive call takes down, and
  the number of notes on the board, which every round of the guessing loop takes down.
\<close>

definition empties :: "board \<Rightarrow> nat" where
  "empties b = nat (int (size_b b * size_b b) - total_appearances b)"

definition note_count :: "board \<Rightarrow> nat" where
  "note_count b =
     length (filter (\<lambda>(r, c, v). has_note b r c v)
       (List.product [0..<size_b b] (List.product [0..<size_b b] [1..<size_b b + 1])))"

lemma filter_length_strict:
  assumes "\<And>x. x \<in> set xs \<Longrightarrow> P' x \<Longrightarrow> P x" "x0 \<in> set xs" "P x0" "\<not> P' x0"
  shows "length (filter P' xs) < length (filter P xs)"
proof -
  have "filter P' xs = filter P' (filter P xs)"
    using assms(1) by (auto simp: filter_filter intro: filter_cong)
  moreover have "length (filter P' (filter P xs)) < length (filter P xs)"
    by (rule filter_length_less[where x = x0]) (use assms in simp_all)
  ultimately show ?thesis by simp
qed

lemma notes_off_note:
  assumes wf: "board_wf b" and rc: "row < size_b b" "col < size_b b"
    and v: "0 < val" "val \<le> size_b b"
    and a: "r < size_b b" "c < size_b b" "0 < u" "u \<le> size_b b"
  shows "has_note (b\<lparr>notes_b := notes_off row col val (notes_b b)\<rparr>) r c u =
         (has_note b r c u \<and> \<not> (r = row \<and> c = col \<and> u = val))"
proof -
  have nw: "notes_wf (size_b b) (notes_b b)" using wf by (simp add: board_wf_def)
  show ?thesis using notes_off_check[OF nw rc v a] by (simp add: has_note_def)
qed

lemma note_count_off:
  assumes wf: "board_wf b" and rc: "row < size_b b" "col < size_b b"
    and v: "0 < val" "val \<le> size_b b" and on: "has_note b row col val"
  shows "note_count (b\<lparr>notes_b := notes_off row col val (notes_b b)\<rparr>) < note_count b"
proof -
  let ?b = "b\<lparr>notes_b := notes_off row col val (notes_b b)\<rparr>"
  let ?xs = "List.product [0..<size_b b] (List.product [0..<size_b b] [1..<size_b b + 1])"
  have "length (filter (\<lambda>(r, c, v). has_note ?b r c v) ?xs) <
        length (filter (\<lambda>(r, c, v). has_note b r c v) ?xs)"
  proof (rule filter_length_strict[where ?x0.0 = "(row, col, val)"])
    fix x assume x: "x \<in> set ?xs" "(\<lambda>(r, c, v). has_note ?b r c v) x"
    obtain r c u where xe: "x = (r, c, u)" by (cases x)
    have "r < size_b b" "c < size_b b" "0 < u" "u \<le> size_b b" using x(1) xe by auto
    from notes_off_note[OF wf rc v this] x(2) xe
    show "(\<lambda>(r, c, v). has_note b r c v) x" by simp
  next
    show "(row, col, val) \<in> set ?xs" using rc v by auto
    show "(\<lambda>(r, c, v). has_note b r c v) (row, col, val)" using on by simp
    show "\<not> (\<lambda>(r, c, v). has_note ?b r c v) (row, col, val)"
      using notes_off_note[OF wf rc v rc v] by simp
  qed
  then show ?thesis by (simp add: note_count_def)
qed

lemma board_create_Some:
  assumes "board_wf b"
  shows "\<exists>nb. board_create (size_b b) = Some nb \<and> board_inv nb \<and> size_b nb = size_b b"
proof -
  have "0 < size_b b" "int_sqrt (size_b b) * int_sqrt (size_b b) = size_b b"
    using assms by (simp_all add: board_wf_def)
  then obtain nb where c: "board_create (size_b b) = Some nb" by (simp add: board_create_def)
  then have "size_b nb = size_b b" by (auto simp: board_create_def split: if_splits)
  then show ?thesis using c board_create_inv[OF c] by simp
qed

lemma guess_loop_returns:
  assumes IH: "\<And>b2 m. board_inv b2 \<Longrightarrow> 0 < total_appearances b2 \<Longrightarrow> empties b2 < E \<Longrightarrow>
      \<exists>f r b' k. board_solve f b2 m = Ret r b' k"
  shows "board_inv b \<Longrightarrow> board_inv nb \<Longrightarrow> size_b nb = size_b b \<Longrightarrow>
    0 < total_appearances b \<Longrightarrow> total_appearances b < int (size_b b * size_b b) \<Longrightarrow>
    empties b \<le> E \<Longrightarrow> \<exists>f r b' k. guess_loop f (size_b b) b nb n = Ret r b' k"
proof (induction "note_count b" arbitrary: b nb rule: less_induct)
  case less
  define sz where "sz = size_b b"
  note inv = less.prems(1) and invn = less.prems(2) and szn = less.prems(3)
    and pos = less.prems(4) and nfull = less.prems(5) and em = less.prems(6)
  have wf: "board_wf b" using inv by (rule board_inv_wf)
  have cp: "board_copy nb b = Some b"
    by (rule board_copy_src[OF inv board_inv_wf[OF invn] szn])
  have rng: "\<forall>(np, i, j) \<in> set (guess_order sz). i < sz \<and> j < sz" by (rule guess_order_range)
  show ?case
  proof (cases "guess_scan sz (guess_order sz) b")
    case Scan_return
    then have "guess_loop (Suc 0) sz b nb n = Ret 1 b 0" using cp by simp
    then show ?thesis unfolding sz_def by blast
  next
    case Scan_failed
    moreover have "guess_scan sz (guess_order sz) b \<noteq> Scan_failed"
      by (rule guess_scan_not_failed) (use rng in \<open>simp_all add: sz_def\<close>)
    ultimately show ?thesis by simp
  next
    case (Scan_done nb' g)
    have "g \<noteq> None" using guess_scan_guess[OF inv pos nfull] Scan_done by (auto simp: sz_def)
    then obtain i j k st where g: "g = Some (i, j, k)" and ij: "i < sz" "j < sz"
      and k: "0 < k" "k \<le> sz" and on: "has_note b i j k"
      and bi: "board_insert b (i + 1) (j + 1) k = Some (st, nb')"
      using guess_scan_done[OF Scan_done rng] by auto
    have "cell b i j = 0 \<and> \<not> used_row b i k \<and> \<not> used_col b j k \<and>
        \<not> used_box b (box_of b i j) k"
      using inv ij k on unfolding board_inv_def notes_sound_def sz_def by blast
    then have st: "st = 0" using board_insert_cases[OF bi] by auto
    have ins: "inserted b i j k nb'" using board_insert_inserted[OF wf bi[unfolded st]] by simp
    have inv': "board_inv nb'" by (rule board_insert_inv[OF inv bi])
    have sz': "size_b nb' = sz" using inserted_size[OF ins] by (simp add: sz_def)
    have tot': "total_appearances nb' = total_appearances b + 1" by (rule inserted_total[OF ins])
    have "empties nb' < E" using tot' sz' nfull em by (simp add: empties_def sz_def)
    from IH[OF inv' _ this, of "n + 1"] tot' pos
    obtain f1 r1 nb'' k1 where s1: "board_solve f1 nb' (n + 1) = Ret r1 nb'' k1" by auto
    have r1: "r1 = 0 \<or> r1 = 1" using status_0_or_1[of f1] s1 by blast
    have "solve_post (board_make_notes nb') r1 nb''"
      using solve_post_both[of f1] inv' s1 by blast
    then have inv'': "board_inv nb''" and sz'': "size_b nb'' = sz"
      using sz' by (simp_all add: solve_post_def evolves_def)
    from r1 show ?thesis
    proof
      assume z: "r1 = 0"
      have "board_copy b nb'' = Some nb''"
        by (rule board_copy_src[OF inv'' wf]) (simp add: sz'' sz_def)
      then have "guess_loop (Suc f1) sz b nb n = Ret 0 nb'' k1"
        using cp Scan_done s1 z by simp
      then show ?thesis unfolding sz_def by blast
    next
      assume o: "r1 = 1"
      define b2 where "b2 = b\<lparr>notes_b := notes_off i j k (notes_b b)\<rparr>"
      have ev: "evolves b b2"
        unfolding b2_def by (rule notes_off_evolves[OF inv]) (use ij k in \<open>simp_all add: sz_def\<close>)
      have inv2: "board_inv b2" and sz2: "size_b b2 = size_b b"
        using ev by (simp_all add: evolves_def)
      have tot2: "total_appearances b2 = total_appearances b" by (simp add: b2_def)
      have nc: "note_count b2 < note_count b"
        unfolding b2_def by (rule note_count_off[OF wf]) (use ij k on in \<open>simp_all add: sz_def\<close>)
      have "\<exists>f r b' k. guess_loop f (size_b b2) b2 nb'' n = Ret r b' k"
        by (rule less.hyps[OF nc inv2 inv''])
          (use sz'' sz2 tot2 pos nfull em in \<open>simp_all add: sz_def empties_def\<close>)
      then obtain f2 r b' k2 where l2: "guess_loop f2 sz b2 nb'' n = Ret r b' k2"
        using sz2 by (auto simp: sz_def)
      define F where "F = max f1 f2"
      have 1: "board_solve F nb' (n + 1) = Ret 1 nb'' k1"
        using board_solve_fuel[of f1 nb' "n + 1" F] s1 o by (simp add: F_def)
      have 2: "guess_loop F sz b2 nb'' n = Ret r b' k2"
        using guess_loop_fuel[of f2 sz b2 nb'' n F] l2 by (simp add: F_def)
      have "guess_loop (Suc F) sz b nb n = Ret r b' (k1 + k2)"
        using cp Scan_done 1 g 2 by (simp add: b2_def)
      then show ?thesis unfolding sz_def by blast
    qed
  qed
qed

lemma board_solve_returns:
  "board_inv b \<Longrightarrow> 0 < total_appearances b \<Longrightarrow> \<exists>f r b' k. board_solve f b n = Ret r b' k"
proof (induction "empties b" arbitrary: b n rule: less_induct)
  case less
  define sz where "sz = size_b b"
  define b0 where "b0 = board_make_notes b"
  note inv = less.prems(1) and pos = less.prems(2)
  have inv0: "board_inv b0" unfolding b0_def by (rule make_notes_evolves(1)[OF inv])
  have sz0: "size_b b0 = sz" by (simp add: b0_def sz_def)
  have tot0: "total_appearances b0 = total_appearances b" by (simp add: b0_def)
  have nf: "solve_rounds sz b0 \<noteq> Failed" by (rule solve_rounds_safe[OF inv0]) (simp add: sz0)
  have ok: "flow_ok sz b0 (solve_rounds sz b0)" by (rule solve_rounds_ok)
  show ?case
  proof (cases "solve_rounds sz b0")
    case Failed
    then show ?thesis using nf by simp
  next
    case (Returned r b1)
    then have "board_solve (Suc 0) b n = Ret r b1 1"
      by (simp add: board_get_size_def sz_def b0_def)
    then show ?thesis by blast
  next
    case (Running b1)
    have "inserts_to b0 b1" using ok Running by simp
    then have ev: "evolves b0 b1" using inv0 by (rule inserts_to_evolves)
    have inv1: "board_inv b1" and sz1: "size_b b1 = sz"
      and tot1: "total_appearances b \<le> total_appearances b1"
      using ev sz0 tot0 by (simp_all add: evolves_def)
    show ?thesis
    proof (cases "total_appearances b1 \<ge> int (sz * sz)")
      case True
      then have "board_solve (Suc 0) b n = Ret 0 b1 1"
        using Running by (simp add: board_get_size_def sz_def b0_def)
      then show ?thesis by blast
    next
      case False
      obtain new_b where c: "board_create sz = Some new_b" and invn: "board_inv new_b"
        and szn: "size_b new_b = sz"
        using board_create_Some[OF board_inv_wf[OF inv]] by (auto simp: sz_def)
      have "\<exists>f r b' k. guess_loop f (size_b b1) b1 new_b n = Ret r b' k"
      proof (rule guess_loop_returns[where E = "empties b"])
        fix b2 m assume "board_inv b2" "0 < total_appearances b2" "empties b2 < empties b"
        then show "\<exists>f r b' k. board_solve f b2 m = Ret r b' k" using less.hyps by blast
      next
        show "empties b1 \<le> empties b" using tot1 sz1 by (simp add: empties_def sz_def)
      qed (use inv1 invn szn sz1 tot1 pos False in simp_all)
      then obtain f r b' k where "guess_loop f sz b1 new_b n = Ret r b' k"
        using sz1 by auto
      then have "board_solve (Suc f) b n = Ret r b' (1 + k)"
        using Running False c by (simp add: board_get_size_def sz_def b0_def)
      then show ?thesis by blast
    qed
  qed
qed

section \<open>The empty board has a solution\<close>

lemma mod_add_cancel:
  assumes "x < n" "y < n" "(x + k) mod n = (y + k) mod n"
  shows "x = (y::nat)"
proof (rule ccontr)
  assume ne: "x \<noteq> y"
  have "int ((x + k) mod n) = int ((y + k) mod n)" using assms(3) by simp
  then have "(int x + int k) mod int n = (int y + int k) mod int n" by (simp add: zmod_int)
  then have "int n dvd (int x + int k) - (int y + int k)" by (simp only: mod_eq_dvd_iff)
  then have d: "int n dvd int x - int y" by simp
  have "int x - int y \<noteq> 0" using ne by simp
  from dvd_imp_le_int[OF this d] have "int n \<le> \<bar>int x - int y\<bar>" by simp
  then show False using assms(1,2) by linarith
qed

lemma swap_digits:
  assumes "r < R * R" "r' < R * R" "(r mod R) * R + r div R = (r' mod R) * R + r' div (R::nat)"
  shows "r = r'"
proof -
  have R: "0 < R" using assms(1) by (cases R) auto
  have 1: "r div R < R" "r' div R < R"
    using assms(1,2) R by (simp_all add: less_mult_imp_div_less)
  have "((r mod R) * R + r div R) div R = r mod R" "((r' mod R) * R + r' div R) div R = r' mod R"
    "((r mod R) * R + r div R) mod R = r div R" "((r' mod R) * R + r' div R) mod R = r' div R"
    using 1 R by simp_all
  then have "r mod R = r' mod R" "r div R = r' div R" using assms(3) by metis+
  then show ?thesis by (metis div_mult_mod_eq)
qed

lemma swap_digits_less:
  assumes "r < R * R"
  shows "(r mod R) * R + r div R < R * (R::nat)"
proof -
  have R: "0 < R" using assms(1) by (cases R) auto
  have 1: "r div R < R" using assms R by (simp add: less_mult_imp_div_less)
  have 2: "r mod R < R" using R by simp
  have "(r mod R) * R + r div R < (r mod R) * R + R" using 1 by simp
  also have "\<dots> = Suc (r mod R) * R" by simp
  also have "\<dots> \<le> R * R" using 2 by (intro mult_le_mono1) simp
  finally show ?thesis .
qed

lemma two_digits:
  assumes "a < R" "a' < R" "d < R" "d' < R" "a * R + d = a' * R + (d'::nat)"
  shows "a = a' \<and> d = d'"
proof -
  have "(a * R + d) div R = a" "(a' * R + d') div R = a'" "(a * R + d) mod R = d"
    "(a' * R + d') mod R = d'"
    using assms(1-4) by simp_all
  then show ?thesis using assms(5) by metis
qed

text \<open>
  The grid that shifts the first row 1, 2, ... by one box width from one row of a box to
  the next, and by one more from one row of boxes to the next.
\<close>

definition shift_grid :: "nat \<Rightarrow> nat \<Rightarrow> nat \<Rightarrow> nat" where
  "shift_grid R r c = ((r mod R) * R + r div R + c) mod (R * R) + 1"

lemma shift_grid_unit:
  assumes R: "0 < R" and rc: "r < R * R" "c < R * R" "r' < R * R" "c' < R * R"
    and eq: "shift_grid R r c = shift_grid R r' c'"
    and unit: "r = r' \<or> c = c' \<or> (r div R = r' div R \<and> c div R = c' div R)"
  shows "r = r' \<and> c = c'"
proof -
  define n where "n = R * R"
  define p where "p r = (r mod R) * R + r div R" for r
  have e: "(p r + c) mod n = (p r' + c') mod n"
    using eq by (simp add: shift_grid_def p_def n_def)
  have pl: "p r < n" "p r' < n" using swap_digits_less rc by (simp_all add: p_def n_def)
  from unit consider "r = r'" | "c = c'" | "r div R = r' div R \<and> c div R = c' div R" by blast
  then show ?thesis
  proof cases
    case 1
    then have "(c + p r) mod n = (c' + p r) mod n" using e by (simp add: add.commute)
    then have "c = c'" using rc by (intro mod_add_cancel[of c n c' "p r"]) (simp_all add: n_def)
    then show ?thesis using 1 by simp
  next
    case 2
    then have "p r = p r'" using e pl by (intro mod_add_cancel[of "p r" n "p r'" c]) simp_all
    then have "r = r'" using rc by (intro swap_digits[of r R r']) (simp_all add: p_def)
    then show ?thesis using 2 by simp
  next
    case 3
    define K where "K = r div R + (c div R) * R"
    define x where "x = (r mod R) * R + c mod R"
    define x' where "x' = (r' mod R) * R + c' mod R"
    have c: "c = (c div R) * R + c mod R" "c' = (c' div R) * R + c' mod R" by simp_all
    have "p r + c = x + K" unfolding p_def x_def K_def using c(1) by linarith
    moreover have "K = r' div R + (c' div R) * R" using 3 by (simp add: K_def)
    then have "p r' + c' = x' + K" unfolding p_def x'_def using c(2) by linarith
    ultimately have e': "(x + K) mod n = (x' + K) mod n" using e by simp
    have m: "r mod R < R" "r' mod R < R" "c mod R < R" "c' mod R < R" using R by simp_all
    have xl: "x < n" "x' < n"
    proof -
      have "a * R + d < R * R" if "a < R" "d < R" for a d :: nat
      proof -
        have "a * R + d < a * R + R" using that by simp
        also have "\<dots> = Suc a * R" by simp
        also have "\<dots> \<le> R * R" using that by (intro mult_le_mono1) simp
        finally show ?thesis .
      qed
      then show "x < n" "x' < n" using m by (simp_all add: x_def x'_def n_def)
    qed
    have "x = x'" using e' xl by (intro mod_add_cancel[of x n x' K]) simp_all
    then have "r mod R = r' mod R \<and> c mod R = c' mod R"
      unfolding x_def x'_def by (intro two_digits[of _ R]) (use m in simp_all)
    then have "r = r'" "c = c'" using 3 by (metis div_mult_mod_eq)+
    then show ?thesis by simp
  qed
qed

lemma empty_board_solvable:
  assumes inv: "board_inv b" and z: "total_appearances b = 0"
  shows "\<exists>g. solves b g"
proof -
  define n where "n = size_b b"
  define R where "R = int_sqrt n"
  have wf: "board_wf b" using inv by (rule board_inv_wf)
  have n: "R * R = n" "0 < n" using wf by (simp_all add: board_wf_def R_def n_def)
  have R: "0 < R" using root_pos[OF wf] by (simp add: R_def n_def)
  have cells: "cell b r c = 0" if "r < n" "c < n" for r c
  proof (rule ccontr)
    assume "cell b r c \<noteq> 0"
    have "total_appearances b = int (count_cells b (\<lambda>x. x \<noteq> 0))"
      using inv by (simp add: board_inv_def board_core_def counts_ok_def)
    then have "filter (\<lambda>(r, c). cell b r c \<noteq> 0) (cells_of n) = []"
      using z by (simp add: count_cells_def n_def)
    moreover have "(r, c) \<in> set (cells_of n)" using that by simp
    ultimately have "\<not> (\<lambda>(r, c). cell b r c \<noteq> 0) (r, c)" by (metis filter_empty_conv)
    then show False using \<open>cell b r c \<noteq> 0\<close> by simp
  qed
  have "solves b (shift_grid R)"
    unfolding solves_def n_def[symmetric]
  proof (intro conjI allI impI)
    fix r c assume a: "r < n" "c < n"
    show "0 < shift_grid R r c" by (simp add: shift_grid_def)
    have "((r mod R) * R + r div R + c) mod (R * R) < R * R" using n by simp
    then have "shift_grid R r c \<le> R * R" unfolding shift_grid_def by linarith
    then show "shift_grid R r c \<le> n" using n by simp
    assume "cell b r c \<noteq> 0"
    then show "shift_grid R r c = cell b r c" using cells[OF a] by simp
  next
    fix r c r' c'
    assume a: "r < n" "c < n" "r' < n" "c' < n"
      and e: "shift_grid R r c = shift_grid R r' c' \<and> same_unit b r c r' c'"
    have "box_of b r c = box_of b r' c' \<longleftrightarrow> r div R = r' div R \<and> c div R = c' div R"
      using box_of_eq_iff[OF wf, of c c' r r'] a by (simp add: R_def n_def)
    then have u: "r = r' \<or> c = c' \<or> (r div R = r' div R \<and> c div R = c' div R)"
      using e by (auto simp: same_unit_def)
    have "r = r' \<and> c = c'"
      by (rule shift_grid_unit[OF R _ _ _ _ _ u]) (use a e n in simp_all)
    then show "r = r'" "c = c'" by simp_all
  qed
  then show ?thesis by blast
qed

section \<open>The status of \<open>board_solve\<close>, and that it returns\<close>

lemma board_u_unsolvable: "\<not> solves board_u g"
proof
  assume s: "solves board_u g"
  have sz: "size_b board_u = 4" by code_simp
  have c: "cell board_u 0 0 = 1" "cell board_u 0 1 = 2" "cell board_u 0 2 = 3"
    "cell board_u 1 3 = 4"
    by code_simp+
  have v: "0 < g r c \<and> g r c \<le> 4 \<and> (cell board_u r c \<noteq> 0 \<longrightarrow> g r c = cell board_u r c)"
    if "r < 4" "c < 4" for r c
    using s that unfolding solves_def sz by blast
  have d: "r = r' \<and> c = c'"
    if "r < 4" "c < 4" "r' < 4" "c' < 4" "g r c = g r' c'" "same_unit board_u r c r' c'"
    for r c r' c'
    using s that unfolding solves_def sz by blast
  have g: "g 0 0 = 1" "g 0 1 = 2" "g 0 2 = 3" "g 1 3 = 4"
    using v[of 0 0] v[of 0 1] v[of 0 2] v[of 1 3] c by simp_all
  have r: "0 < g 0 3" "g 0 3 \<le> 4" using v[of 0 3] by simp_all
  have "g 0 3 \<noteq> 1" using d[of 0 3 0 0] g by (auto simp: same_unit_def)
  moreover have "g 0 3 \<noteq> 2" using d[of 0 3 0 1] g by (auto simp: same_unit_def)
  moreover have "g 0 3 \<noteq> 3" using d[of 0 3 0 2] g by (auto simp: same_unit_def)
  moreover have "g 0 3 \<noteq> 4" using d[of 0 3 1 3] g by (auto simp: same_unit_def)
  ultimately show False using r by arith
qed

text \<open>
  C8. On a board that satisfies the invariants, a call of \<open>board_solve\<close> that returns
  returns 0 or 1, and more fuel gives the same result. With 0 the board it leaves is
  solved and keeps the numbers it was given; with 1 the board it leaves is not full. A
  board that holds a number gets a result: the call returns. A board that has no
  solution gets the result 1 (the empty board has a solution). So a caller reads 0 as
  solved; the comment in board.h has the two the other way round.
\<close>

theorem board_solve_status:
  assumes "board_inv b"
  shows "(\<forall>fuel r b' k. board_solve fuel b n = Ret r b' k \<longrightarrow>
            (r = 0 \<or> r = 1) \<and>
            (r = 0 \<longrightarrow> board_solved b' \<and> solves b (cell b')) \<and>
            (r = 1 \<longrightarrow> \<not> board_solved b' \<and>
               total_appearances b' < int (size_b b' * size_b b')) \<and>
            ((\<forall>g. \<not> solves b g) \<longrightarrow> r = 1) \<and>
            (\<forall>fuel'. fuel \<le> fuel' \<longrightarrow> board_solve fuel' b n = Ret r b' k)) \<and>
         (0 < total_appearances b \<longrightarrow> (\<exists>fuel r b' k. board_solve fuel b n = Ret r b' k)) \<and>
         ((\<forall>g. \<not> solves b g) \<longrightarrow> (\<exists>fuel b' k. board_solve fuel b n = Ret 1 b' k))"
proof -
  have part: "(r = 0 \<or> r = 1) \<and>
         (r = 0 \<longrightarrow> board_solved b' \<and> solves b (cell b')) \<and>
         (r = 1 \<longrightarrow> \<not> board_solved b' \<and>
            total_appearances b' < int (size_b b' * size_b b')) \<and>
         ((\<forall>g. \<not> solves b g) \<longrightarrow> r = 1) \<and>
         (\<forall>fuel'. fuel \<le> fuel' \<longrightarrow> board_solve fuel' b n = Ret r b' k)"
    if run: "board_solve fuel b n = Ret r b' k" for fuel r b' k
  proof -
    from solve_post_both[of fuel] assms run
    have p: "solve_post (board_make_notes b) r b'" by blast
    then have inv': "board_inv b'" and sz: "size_b b' = size_b b"
      and ext: "grid_extends (board_make_notes b) b'"
      and st: "r = 0 \<and> total_appearances b' \<ge> int (size_b b * size_b b) \<or>
               r = 1 \<and> total_appearances b' < int (size_b b * size_b b)"
      by (simp_all add: solve_post_def evolves_def)
    have ext': "grid_extends b b'"
      using ext by (simp add: grid_extends_def cell_def)
    have zero: "board_solved b' \<and> solves b (cell b')" if "r = 0"
    proof -
      have full: "total_appearances b' \<ge> int (size_b b' * size_b b')" using st that sz by simp
      show ?thesis
        using full_board_solved[OF inv' full] solved_solves[OF inv' full sz ext'] by simp
    qed
    have one: "\<not> board_solved b' \<and> total_appearances b' < int (size_b b' * size_b b')"
      if "r = 1"
      using st that sz not_full_not_solved[of b'] by simp
    have more: "board_solve fuel' b n = Ret r b' k" if "fuel \<le> fuel'" for fuel'
      using board_solve_fuel[of fuel b n fuel'] run that by simp
    have "r = 0 \<or> r = 1" using st by blast
    moreover have "(\<forall>g. \<not> solves b g) \<longrightarrow> r = 1" using st zero by blast
    ultimately show ?thesis using zero one more by (intro conjI allI impI) simp_all
  qed
  have ret: "\<exists>fuel r b' k. board_solve fuel b n = Ret r b' k" if "0 < total_appearances b"
    by (rule board_solve_returns[OF assms that])
  have uns: "\<exists>fuel b' k. board_solve fuel b n = Ret 1 b' k" if no: "\<forall>g. \<not> solves b g"
  proof -
    have "total_appearances b \<noteq> 0" using empty_board_solvable[OF assms] no by blast
    moreover have "0 \<le> total_appearances b"
      using assms by (simp add: board_inv_def board_core_def counts_ok_def)
    ultimately have "0 < total_appearances b" by simp
    then obtain fuel r b' k where run: "board_solve fuel b n = Ret r b' k" using ret by blast
    have "(\<forall>g. \<not> solves b g) \<longrightarrow> r = 1" using part[OF run] by (elim conjE)
    then have "r = 1" using no by (elim impE)
    then show ?thesis using run by blast
  qed
  show ?thesis
  proof (intro conjI)
    show "\<forall>fuel r b' k. board_solve fuel b n = Ret r b' k \<longrightarrow>
            (r = 0 \<or> r = 1) \<and>
            (r = 0 \<longrightarrow> board_solved b' \<and> solves b (cell b')) \<and>
            (r = 1 \<longrightarrow> \<not> board_solved b' \<and>
               total_appearances b' < int (size_b b' * size_b b')) \<and>
            ((\<forall>g. \<not> solves b g) \<longrightarrow> r = 1) \<and>
            (\<forall>fuel'. fuel \<le> fuel' \<longrightarrow> board_solve fuel' b n = Ret r b' k)"
      by (intro allI impI) (rule part)
    show "0 < total_appearances b \<longrightarrow> (\<exists>fuel r b' k. board_solve fuel b n = Ret r b' k)"
      using ret by (intro impI)
    show "(\<forall>g. \<not> solves b g) \<longrightarrow> (\<exists>fuel b' k. board_solve fuel b n = Ret 1 b' k)"
      using uns by (intro impI)
  qed
qed

theorem board_solve_status_witness:
  "(\<exists>fuel b' k. board_solve fuel board_u 1 = Ret 1 b' k) \<and>
   (\<forall>g. \<not> solves board_u g) \<and>
   status_of (board_solve 1 board_u 1) = Some 1 \<and>
   \<not> board_solved (the (board_of (board_solve 1 board_u 1))) \<and>
   status_of (board_solve 3 board_d 1) = Some 0 \<and>
   status_of (board_solve 7 board_d 1) = Some 0 \<and>
   solves board_d (cell (the (board_of (board_solve 3 board_d 1))))"
proof -
  note tu = board_solve_status[OF board_u_inv, of 1]
  note td = board_solve_status[OF board_d_inv, of 1]
  have no: "\<forall>g. \<not> solves board_u g" using board_u_unsolvable by blast
  have 0: "\<exists>fuel b' k. board_solve fuel board_u 1 = Ret 1 b' k"
    using tu[THEN conjunct2, THEN conjunct2] no by (elim impE)
  have s1: "status_of (board_solve 1 board_u 1) = Some 1" by code_simp
  then obtain b1 k1 where r1: "board_solve 1 board_u 1 = Ret 1 b1 k1"
    using status_of_Some by blast
  have s2: "status_of (board_solve 3 board_d 1) = Some 0" by code_simp
  then obtain b2 k2 where r2: "board_solve 3 board_d 1 = Ret 0 b2 k2"
    using status_of_Some by blast
  note p1 = tu[THEN conjunct1, rule_format, OF r1]
  note p2 = td[THEN conjunct1, rule_format, OF r2]
  have 1: "\<not> board_solved b1" using p1 by (elim conjE) simp
  have 2: "solves board_d (cell b2)" using p2 by (elim conjE) simp
  have "\<forall>fuel'. 3 \<le> fuel' \<longrightarrow> board_solve fuel' board_d 1 = Ret 0 b2 k2"
    using p2 by (elim conjE)
  then have "board_solve 7 board_d 1 = Ret 0 b2 k2" by (elim allE impE) simp_all
  then have 3: "status_of (board_solve 7 board_d 1) = Some 0" by (simp only: status_of.simps)
  have "the (board_of (board_solve 1 board_u 1)) = b1" "the (board_of (board_solve 3 board_d 1)) = b2"
    by (simp_all only: r1 r2 board_of.simps option.sel)
  then show ?thesis using 0 1 2 3 s1 s2 no by (simp only: simp_thms)
qed

section \<open>How the notes of a board change during a call of \<open>board_solve\<close>\<close>






section \<open>One derivation of the notes for every call of \<open>board_solve\<close>\<close>






end
